theory Spec2Isabelle
  imports Main "HOL-Library.List_Lexorder" "HOL-Library.Multiset"
begin

section \<open>Python strings\<close>

text \<open>
  A Python \<open>str\<close> is a sequence of Unicode code points. It is modelled as a list of
  natural numbers, one per code point, so that an accented letter of a Spanish label is
  the single code point 243, and so that the lexicographic order on lists (from
  \<open>List_Lexorder\<close>) is Python's order on \<open>str\<close>.
\<close>

type_synonym str = "nat list"

text \<open>An ASCII literal of the source, as code points.\<close>

definition lit :: "string \<Rightarrow> str" where
  "lit s = map of_char s"

text \<open>
  \<open>str.isspace\<close> on one code point. \<open>str.strip()\<close> and the pattern \<open>\s\<close> of \<open>re\<close> (on
  \<open>str\<close> patterns) use the same set.
\<close>

definition isspace :: "nat \<Rightarrow> bool" where
  "isspace c = (c \<in> set [9, 10, 11, 12, 13, 28, 29, 30, 31, 32, 133, 160, 5760,
      8192, 8193, 8194, 8195, 8196, 8197, 8198, 8199, 8200, 8201, 8202,
      8232, 8233, 8239, 8287, 12288])"

text \<open>\<open>s.strip()\<close>: leading and trailing whitespace removed.\<close>

definition lstrip :: "str \<Rightarrow> str" where
  "lstrip s = dropWhile isspace s"

definition rstrip :: "str \<Rightarrow> str" where
  "rstrip s = rev (dropWhile isspace (rev s))"

definition strip :: "str \<Rightarrow> str" where
  "strip s = rstrip (lstrip s)"

text \<open>The line boundaries of \<open>str.splitlines()\<close>; \<open>\r\n\<close> is one boundary.\<close>

definition is_linebreak :: "nat \<Rightarrow> bool" where
  "is_linebreak c = (c \<in> set [10, 11, 12, 13, 28, 29, 30, 133, 8232, 8233])"

text \<open>
  \<open>s.splitlines()\<close>, with the line being read kept reversed in \<open>cur\<close>. A text that ends
  with a line boundary has no empty last line; the empty text has no line.
\<close>

fun splitlines_from :: "str \<Rightarrow> str \<Rightarrow> str list" where
  "splitlines_from cur [] = (if cur = [] then [] else [rev cur])"
| "splitlines_from cur (c # cs) =
     (if is_linebreak c then
        (case cs of
           [] \<Rightarrow> [rev cur]
         | d # ds \<Rightarrow>
             if c = 13 \<and> d = 10 then rev cur # splitlines_from [] ds
             else rev cur # splitlines_from [] (d # ds))
      else splitlines_from (c # cur) cs)"

definition splitlines :: "str \<Rightarrow> str list" where
  "splitlines s = splitlines_from [] s"

text \<open>\<open>sub in s\<close> on strings: \<open>sub\<close> occurs in \<open>s\<close> as a contiguous substring.\<close>

fun startswith :: "str \<Rightarrow> str \<Rightarrow> bool" where
  "startswith s [] = True"
| "startswith [] (p # ps) = False"
| "startswith (c # cs) (p # ps) = (c = p \<and> startswith cs ps)"

fun str_contains :: "str \<Rightarrow> str \<Rightarrow> bool" where
  "str_contains [] sub = (sub = [])"
| "str_contains (c # cs) sub = (startswith (c # cs) sub \<or> str_contains cs sub)"

section \<open>The fragment of \<open>re\<close> the provider uses\<close>

text \<open>
  The two patterns of the provider use literal characters, \<open>\s*\<close>, \<open>.*\<close>, \<open>.*?\<close>,
  capturing groups and an alternation of literals. A pattern is matched as \<open>re\<close> does it,
  by backtracking: \<open>bt r s g k\<close> matches \<open>r\<close> at the front of \<open>s\<close> with the groups \<open>g\<close>
  captured so far and hands the rest of the subject to the continuation \<open>k\<close>; the first
  alternative that lets the continuation succeed is the result. A greedy star tries the
  longest run first, a lazy star the shortest.
\<close>

datatype rx =
    Eps
  | Chr "nat \<Rightarrow> bool"
  | Seq rx rx
  | Alt rx rx
  | StarG "nat \<Rightarrow> bool"
  | StarL "nat \<Rightarrow> bool"
  | Grp nat rx

type_synonym groups = "nat \<Rightarrow> str option"

fun bt :: "rx \<Rightarrow> str \<Rightarrow> groups \<Rightarrow> (str \<Rightarrow> groups \<Rightarrow> groups option) \<Rightarrow> groups option" where
  "bt Eps s g k = k s g"
| "bt (Chr p) s g k = (case s of [] \<Rightarrow> None | c # cs \<Rightarrow> if p c then k cs g else None)"
| "bt (Seq a b) s g k = bt a s g (\<lambda>s' g'. bt b s' g' k)"
| "bt (Alt a b) s g k = (case bt a s g k of Some r \<Rightarrow> Some r | None \<Rightarrow> bt b s g k)"
| "bt (StarG p) s g k =
     (case s of
        [] \<Rightarrow> k [] g
      | c # cs \<Rightarrow>
          if p c then (case bt (StarG p) cs g k of Some r \<Rightarrow> Some r | None \<Rightarrow> k (c # cs) g)
          else k (c # cs) g)"
| "bt (StarL p) s g k =
     (case k s g of
        Some r \<Rightarrow> Some r
      | None \<Rightarrow> (case s of [] \<Rightarrow> None | c # cs \<Rightarrow> if p c then bt (StarL p) cs g k else None))"
| "bt (Grp i a) s g k =
     bt a s g (\<lambda>s' g'. k s' (g'(i \<mapsto> take (length s - length s') s)))"

text \<open>\<open>re.match\<close>: the pattern at the start of the subject; nothing ties it to the end.\<close>

definition re_match :: "rx \<Rightarrow> str \<Rightarrow> groups option" where
  "re_match r s = bt r s (\<lambda>_. None) (\<lambda>_ g. Some g)"

text \<open>\<open>re.search\<close>: the first position of the subject where the pattern matches.\<close>

fun re_search :: "rx \<Rightarrow> str \<Rightarrow> groups option" where
  "re_search r [] = re_match r []"
| "re_search r (c # cs) =
     (case re_match r (c # cs) of Some g \<Rightarrow> Some g | None \<Rightarrow> re_search r cs)"

text \<open>The character classes: \<open>.\<close> (no \<open>DOTALL\<close>) is anything but a newline.\<close>

definition dot :: "nat \<Rightarrow> bool" where
  "dot c = (c \<noteq> 10)"

definition colon :: nat where
  "colon = 58"

definition is_colon :: "nat \<Rightarrow> bool" where
  "is_colon c = (c = colon)"

text \<open>
  A literal character under \<open>re.IGNORECASE\<close>. For an ASCII letter it matches both cases,
  and \<open>re\<close> adds the code points whose simple case folding is that letter: 304 and 305
  for \<open>i\<close>, 383 for \<open>s\<close>, 8490 for \<open>k\<close>.
\<close>

definition ascii_lower :: "nat \<Rightarrow> nat" where
  "ascii_lower c = (if 65 \<le> c \<and> c \<le> 90 then c + 32 else c)"

definition ci_variants :: "nat \<Rightarrow> nat list" where
  "ci_variants c =
     (let l = ascii_lower c in
      if 97 \<le> l \<and> l \<le> 122 then
        [l, l - 32] @ (if l = 105 then [304, 305] else if l = 115 then [383]
                       else if l = 107 then [8490] else [])
      else [c])"

definition ci :: "nat \<Rightarrow> nat \<Rightarrow> bool" where
  "ci c x = (x \<in> set (ci_variants c))"

text \<open>A literal string of a pattern compiled with \<open>re.IGNORECASE\<close>.\<close>

fun lit_ci :: "str \<Rightarrow> rx" where
  "lit_ci [] = Eps"
| "lit_ci (c # cs) = Seq (Chr (ci c)) (lit_ci cs)"

section \<open>Errors, the command runner and the localisation manager\<close>

text \<open>
  The exceptions of \<open>core/exceptions.py\<close> that the scanner tells apart, the
  \<open>CalledProcessError\<close> of \<open>subprocess\<close> (return code, stdout, stderr), and \<open>OtherError\<close>
  for every other subclass of \<open>Exception\<close>. \<open>ScannerServiceException\<close> wraps its cause.
\<close>

datatype exn =
    CalledProcessError int str str
  | OpenNetworkException str
  | AdminRightsRequiredError str str
  | PasswordNotFoundError str str
  | ProfileNotFoundError str
  | ScannerServiceException exn
  | OtherError str

text \<open>
  What the operating system does with a command line: the child process exits with a
  return code and its two output streams, or the process cannot be started.
\<close>

datatype process = Exited int str str | SpawnFailed str

type_synonym os = "str list \<Rightarrow> process"

text \<open>
  \<open>CommandExecutor.run\<close>: \<open>check=True\<close> raises on a non-zero return code; the captured
  stdout is returned stripped.
\<close>

definition run :: "os \<Rightarrow> str list \<Rightarrow> exn + str" where
  "run sys command =
     (case sys command of
        Exited rc out err \<Rightarrow> if rc = 0 then Inr (strip out) else Inl (CalledProcessError rc out err)
      | SpawnFailed msg \<Rightarrow> Inl (OtherError msg))"

text \<open>
  \<open>LocalizationManager\<close>: the loaded table of localised strings. \<open>str.format\<close> is Python's
  own; it is a parameter of the model (\<open>None\<close> when it raises).
\<close>

record localization =
  translations_table :: "str \<rightharpoonup> str"
  str_format :: "str \<Rightarrow> (str \<times> str) list \<Rightarrow> str option"

definition get_string :: "localization \<Rightarrow> str \<Rightarrow> (str \<times> str) list \<Rightarrow> str" where
  "get_string loc key kwargs =
     (let s = (case translations_table loc key of
                 Some t \<Rightarrow> t
               | None \<Rightarrow> lit ''MISSING_TRANSLATION: '' @ key)
      in if kwargs \<noteq> [] then
           (case str_format loc s kwargs of Some t \<Rightarrow> t | None \<Rightarrow> s)
         else s)"

section \<open>\<open>NetshWiFiProvider\<close>\<close>

text \<open>The table \<open>NETSH_KEYS\<close>.\<close>

definition key_content :: "str list" where
  "key_content = [lit ''Key Content'', lit ''Contenido de la clave'']"

definition security_key :: "str list" where
  "security_key = [lit ''Security key'', lit ''Clave de seguridad'']"

definition security_key_absent :: "str list" where
  "security_key_absent = [lit ''Absent'', lit ''Ausente'']"

text \<open>The Spanish label for the authentication, whose accented letter is code point 243.\<close>

definition autenticacion :: str where
  "autenticacion = lit ''Autenticaci'' @ [243] @ lit ''n''"

definition authentication :: "str list" where
  "authentication = [lit ''Authentication'', autenticacion]"

definition auth_open :: "str list" where
  "auth_open = [lit ''Open'', lit ''Abierta'']"

definition profile_not_found :: "str list" where
  "profile_not_found = [lit ''is not found'', lit ''no se encuentra'']"

text \<open>
  The pattern of \<open>list_profiles\<close>, compiled with \<open>re.IGNORECASE\<close>:
  \<^verbatim>\<open>.*(?:All User Profile|Todos los perfiles de usuario|Perfil de todos los usuarios)\s*:\s*(.*)\<close>
\<close>

definition profile_regex :: rx where
  "profile_regex =
     Seq (StarG dot)
       (Seq (Alt (lit_ci (lit ''All User Profile''))
              (Alt (lit_ci (lit ''Todos los perfiles de usuario''))
                   (lit_ci (lit ''Perfil de todos los usuarios''))))
         (Seq (StarG isspace) (Seq (Chr is_colon) (Seq (StarG isspace) (Grp 1 (StarG dot))))))"

text \<open>
  The loop of \<open>list_profiles\<close> over the lines of the listing: a line where the pattern is
  found gives its group 1, stripped, and the name is kept when it is not empty. Group 1
  takes part in every match of the pattern (\<open>profile_regex_group\<close> below), so the case of
  a match without it, where \<open>match.group(1)\<close> would be \<open>None\<close>, does not arise.
\<close>

fun profile_names :: "str list \<Rightarrow> str list" where
  "profile_names [] = []"
| "profile_names (line # ls) =
     (case re_search profile_regex line of
        None \<Rightarrow> profile_names ls
      | Some g \<Rightarrow>
          (case g 1 of
             None \<Rightarrow> profile_names ls
           | Some n \<Rightarrow> if strip n \<noteq> [] then strip n # profile_names ls else profile_names ls))"

definition parse_profile_names :: "str \<Rightarrow> str list" where
  "parse_profile_names output = profile_names (splitlines output)"

definition netsh_list_profiles :: "os \<Rightarrow> exn + str list" where
  "netsh_list_profiles sys =
     (case run sys [lit ''netsh'', lit ''wlan'', lit ''show'', lit ''profiles''] of
        Inl e \<Rightarrow> Inl e
      | Inr output \<Rightarrow> Inr (parse_profile_names output))"

text \<open>The pattern of \<open>_parse_netsh_output\<close>, used with \<open>re.match\<close>: \<^verbatim>\<open>\s*(.*?)\s*:\s*(.*)\<close>\<close>

definition field_regex :: rx where
  "field_regex =
     Seq (StarG isspace)
       (Seq (Grp 1 (StarL dot))
         (Seq (StarG isspace) (Seq (Chr is_colon) (Seq (StarG isspace) (Grp 2 (StarG dot))))))"

text \<open>
  \<open>_parse_netsh_output\<close>: the dictionary \<open>parsed_data\<close> is threaded through the loop over
  the lines; \<open>parsed_data[key] = value\<close> overwrites. Both groups take part in every match
  of the pattern (\<open>re_match_field_regex\<close> below), so the last case does not arise.
\<close>

type_synonym fields = "str \<rightharpoonup> str"

fun parse_lines :: "fields \<Rightarrow> str list \<Rightarrow> fields" where
  "parse_lines parsed_data [] = parsed_data"
| "parse_lines parsed_data (line # ls) =
     (case re_match field_regex line of
        None \<Rightarrow> parse_lines parsed_data ls
      | Some g \<Rightarrow>
          (case (g 1, g 2) of
             (Some k, Some v) \<Rightarrow> parse_lines (parsed_data(strip k \<mapsto> strip v)) ls
           | _ \<Rightarrow> parse_lines parsed_data ls))"

definition parse_netsh_output :: "str \<Rightarrow> fields" where
  "parse_netsh_output output = parse_lines Map.empty (splitlines output)"

text \<open>\<open>any(val in value for val in variants)\<close>\<close>

definition any_in :: "str list \<Rightarrow> str \<Rightarrow> bool" where
  "any_in variants v = list_ex (\<lambda>val. str_contains v val) variants"

text \<open>\<open>for key in keys: if key in details: return details[key]\<close>\<close>

fun lookup_first :: "str list \<Rightarrow> fields \<Rightarrow> str option" where
  "lookup_first [] details = None"
| "lookup_first (key # keys) details =
     (case details key of Some v \<Rightarrow> Some v | None \<Rightarrow> lookup_first keys details)"

text \<open>
  The loop over the security-key labels: it raises at the first label that is present
  with a value containing an absent-value variant, and goes on to the next label
  otherwise.
\<close>

fun security_absent :: "str list \<Rightarrow> fields \<Rightarrow> bool" where
  "security_absent [] details = False"
| "security_absent (key # keys) details =
     (case details key of
        Some v \<Rightarrow> if any_in security_key_absent v then True else security_absent keys details
      | None \<Rightarrow> security_absent keys details)"

text \<open>\<open>next((key for key in keys if key in details), None)\<close>\<close>

fun first_key :: "str list \<Rightarrow> fields \<Rightarrow> str option" where
  "first_key [] details = None"
| "first_key (key # keys) details =
     (if details key \<noteq> None then Some key else first_key keys details)"

text \<open>
  The part of \<open>get_password\<close> after the parsing: it returns the key, or raises
  \<open>OpenNetworkException\<close> or \<open>AdminRightsRequiredError\<close>. \<open>if auth_type_key:\<close> is the
  truth value of a string, false for \<open>None\<close> and for the empty string.
\<close>

definition classify :: "localization \<Rightarrow> fields \<Rightarrow> str \<Rightarrow> exn + str option" where
  "classify loc details profile =
     (case lookup_first key_content details of
        Some v \<Rightarrow> Inr (Some v)
      | None \<Rightarrow>
          if security_absent security_key details then Inl (OpenNetworkException profile)
          else if (case first_key authentication details of
                     None \<Rightarrow> False
                   | Some auth_type_key \<Rightarrow>
                       auth_type_key \<noteq> [] \<and>
                       (case details auth_type_key of
                          None \<Rightarrow> False
                        | Some auth_type \<Rightarrow> any_in auth_open auth_type))
          then Inl (OpenNetworkException profile)
          else Inl (AdminRightsRequiredError profile
                 (get_string loc (lit ''error_password_not_found_admin_required'')
                    [(lit ''profile_name'', profile)])))"

text \<open>
  \<open>get_password\<close>: a \<open>CalledProcessError\<close> of the command is caught and gives \<open>None\<close>,
  whether or not its output has a not-found marker (the two cases differ in the log line
  only); any other exception of the runner propagates.
\<close>

definition netsh_get_password :: "os \<Rightarrow> localization \<Rightarrow> str \<Rightarrow> exn + str option" where
  "netsh_get_password sys loc profile =
     (case run sys [lit ''netsh'', lit ''wlan'', lit ''show'', lit ''profile'', profile,
                    lit ''key=clear''] of
        Inl (CalledProcessError rc out err) \<Rightarrow> Inr None
      | Inl e \<Rightarrow> Inl e
      | Inr output \<Rightarrow> classify loc (parse_netsh_output output) profile)"

section \<open>\<open>WiFiScannerService\<close>\<close>

record credential =
  name :: str
  password :: "str option"
  interface :: str

text \<open>
  The interface \<open>WiFiProvider\<close>: what \<open>list_profiles()\<close> returns or raises, what
  \<open>get_password(profile)\<close> returns or raises, and the interface name. The outcome of a
  lookup is a function of the profile name: during one scan the system answers the same
  query in the same way.
\<close>

record provider =
  list_profiles :: "exn + str list"
  get_password :: "str \<Rightarrow> exn + str option"
  get_interface_name :: str

definition NetshWiFiProvider :: "os \<Rightarrow> localization \<Rightarrow> provider" where
  "NetshWiFiProvider sys loc =
     \<lparr>list_profiles = netsh_list_profiles sys,
      get_password = netsh_get_password sys loc,
      get_interface_name = lit ''Wi-Fi''\<rparr>"

text \<open>
  The body of the loop over the completed futures: \<open>future.result()\<close> returns the
  password or raises what \<open>get_password\<close> raised, and each \<open>except\<close> clause appends one
  credential. \<open>AdminRightsRequiredError\<close> is a subclass of \<open>PasswordNotFoundError\<close>;
  \<open>ProfileNotFoundError\<close> and everything else fall to \<open>except Exception\<close>.
\<close>

fun credential_of :: "localization \<Rightarrow> str \<Rightarrow> exn + str option \<Rightarrow> credential" where
  "credential_of loc profile_name (Inr pw) =
     \<lparr>name = profile_name, password = pw, interface = lit ''WiFi''\<rparr>"
| "credential_of loc profile_name (Inl (OpenNetworkException p)) =
     \<lparr>name = profile_name,
      password = Some (get_string loc (lit ''status_open_network'') []),
      interface = lit ''WiFi''\<rparr>"
| "credential_of loc profile_name (Inl (AdminRightsRequiredError p message)) =
     \<lparr>name = profile_name, password = Some message, interface = lit ''WiFi''\<rparr>"
| "credential_of loc profile_name (Inl (PasswordNotFoundError p message)) =
     \<lparr>name = profile_name, password = Some message, interface = lit ''WiFi''\<rparr>"
| "credential_of loc profile_name (Inl e) =
     \<lparr>name = profile_name,
      password = Some (get_string loc (lit ''status_general_error'') []),
      interface = lit ''WiFi''\<rparr>"

text \<open>
  The futures are numbered by the position of their profile in the listing, and
  \<open>as_completed\<close> yields them in some order \<open>order\<close>, a permutation of the positions
  (\<open>completion_order\<close> below): the loop appends one credential per completed future.
  What is proved about the credentials of a scan assumes such an order.
\<close>

fun collect :: "provider \<Rightarrow> localization \<Rightarrow> str list \<Rightarrow> credential list \<Rightarrow> nat list \<Rightarrow> credential list" where
  "collect prov loc profiles credentials [] = credentials"
| "collect prov loc profiles credentials (i # order) =
     collect prov loc profiles
       (credentials @ [credential_of loc (profiles ! i) (get_password prov (profiles ! i))])
       order"

text \<open>An order in which \<open>n\<close> futures can complete.\<close>

definition completion_order :: "nat \<Rightarrow> nat list \<Rightarrow> bool" where
  "completion_order n order = (distinct order \<and> set order = {0..<n})"

text \<open>
  \<open>scan\<close>: every exception of the listing is wrapped; \<open>credentials.sort(key=...)\<close> is a
  stable sort by name.
\<close>

definition scan :: "provider \<Rightarrow> localization \<Rightarrow> nat list \<Rightarrow> exn + credential list" where
  "scan prov loc order =
     (case list_profiles prov of
        Inl e \<Rightarrow> Inl (ScannerServiceException e)
      | Inr profiles \<Rightarrow>
          if profiles = [] then Inr []
          else Inr (sort_key name (collect prov loc profiles [] order)))"

text \<open>The credential that the loop appends for one profile of the listing.\<close>

definition credential_for :: "provider \<Rightarrow> localization \<Rightarrow> str \<Rightarrow> credential" where
  "credential_for prov loc p = credential_of loc p (get_password prov p)"

section \<open>Concrete inputs\<close>

text \<open>
  A localisation table with the two status strings of the scanner and the message of the
  provider, whose \<open>format\<close> leaves the template as it is.
\<close>

definition example_localization :: localization where
  "example_localization =
     \<lparr>translations_table =
        [lit ''status_open_network'' \<mapsto> lit ''Open network'',
         lit ''status_general_error'' \<mapsto> lit ''Error'',
         lit ''error_password_not_found_admin_required'' \<mapsto> lit ''Admin rights required''],
      str_format = (\<lambda>s kwargs. Some s)\<rparr>"

text \<open>
  A provider that lists two profiles, out of order; the lookup of the first raises an
  exception outside the scanner's taxonomy and the lookup of the second succeeds.
\<close>

definition example_provider :: provider where
  "example_provider =
     \<lparr>list_profiles = Inr [lit ''Office'', lit ''Home''],
      get_password =
        (\<lambda>p. if p = lit ''Office'' then Inl (OtherError (lit ''boom''))
             else Inr (Some (lit ''secret123''))),
      get_interface_name = lit ''Wi-Fi''\<rparr>"

text \<open>A provider whose listing fails.\<close>

definition failing_provider :: provider where
  "failing_provider =
     \<lparr>list_profiles = Inl (CalledProcessError 1 [] []),
      get_password = (\<lambda>p. Inr None),
      get_interface_name = lit ''Wi-Fi''\<rparr>"

text \<open>
  An operating system with one saved profile, whose query command exits with return
  code 1 and a not-found message.
\<close>

definition example_os :: os where
  "example_os command =
     (if command = [lit ''netsh'', lit ''wlan'', lit ''show'', lit ''profiles'']
      then Exited 0 (lit ''    All User Profile     : Home'') []
      else Exited 1 (lit ''Profile Home is not found on the system.'') [])"

text \<open>
  Parsed fields with the authentication label in both languages: the English one has a
  secured type, the Spanish one is open.
\<close>

definition mixed_fields :: fields where
  "mixed_fields =
     [lit ''Authentication'' \<mapsto> lit ''WPA2-Personal'',
      autenticacion \<mapsto> lit ''Abierta'']"

text \<open>Parsed fields whose authentication value has \<open>Open\<close> in the middle.\<close>

definition open_fields :: fields where
  "open_fields = [lit ''Authentication'' \<mapsto> lit ''WPA2-Open-Mixed'']"

text \<open>
  Parsed fields with the authentication label in both languages, where the value of the
  Spanish label has \<open>Abierta\<close> in the middle and the value of the English label has no
  open-value variant.
\<close>

definition shadowed_open_fields :: fields where
  "shadowed_open_fields =
     [lit ''Authentication'' \<mapsto> lit ''WPA2-Personal'',
      autenticacion \<mapsto> lit ''Red Abierta (sin clave)'']"

text \<open>Parsed fields of an open network as a Spanish system prints them.\<close>

definition spanish_fields :: fields where
  "spanish_fields =
     [lit ''Clave de seguridad'' \<mapsto> lit ''Ausente'',
      autenticacion \<mapsto> lit ''Abierta'']"

section \<open>The English equivalent of Spanish fields\<close>

text \<open>
  The locale claim compares parsed fields that use the Spanish variants of the table with
  the equivalent fields using the English variants. Fields use the Spanish variants when
  none of the three English labels is present. Their English equivalent has every
  Spanish label of the table replaced by the English label of the same entry, the value
  \<open>Ausente\<close> of the security key replaced by \<open>Absent\<close>, and the value \<open>Abierta\<close> of
  the authentication replaced by \<open>Open\<close>; the key itself and all other fields stay as
  they are.
\<close>

definition translate_value :: "str \<Rightarrow> str \<Rightarrow> str \<Rightarrow> str" where
  "translate_value es en v = (if v = es then en else v)"

definition spanish_labelled :: "fields \<Rightarrow> bool" where
  "spanish_labelled d =
     (d (lit ''Key Content'') = None \<and> d (lit ''Security key'') = None
      \<and> d (lit ''Authentication'') = None)"

definition english_equivalent :: "fields \<Rightarrow> fields" where
  "english_equivalent d =
     (\<lambda>k. if k = lit ''Key Content'' then d (lit ''Contenido de la clave'')
          else if k = lit ''Security key''
            then map_option (translate_value (lit ''Ausente'') (lit ''Absent''))
                   (d (lit ''Clave de seguridad''))
          else if k = lit ''Authentication''
            then map_option (translate_value (lit ''Abierta'') (lit ''Open''))
                   (d (autenticacion))
          else if k = lit ''Contenido de la clave'' \<or> k = lit ''Clave de seguridad''
                  \<or> k = autenticacion
            then None
          else d k)"

section \<open>The reading of a field line\<close>

text \<open>
  What the pattern of \<open>_parse_netsh_output\<close> means for one line, stated without the
  pattern: a line with a colon has as label the text before its first colon and as value
  the text after it, both stripped; a line without a colon has neither. That the pattern
  computes this is proved below (\<open>re_match_field_regex\<close>).
\<close>

definition label_colon_value :: "str \<Rightarrow> (str \<times> str) option" where
  "label_colon_value line =
     (if colon \<in> set line
      then Some (strip (takeWhile (\<lambda>c. c \<noteq> colon) line),
                 strip (tl (dropWhile (\<lambda>c. c \<noteq> colon) line)))
      else None)"

text \<open>
  A field block where the label \<open>Key Content\<close> occurs on two lines, with a line without
  colon between them and another field after them.
\<close>

definition example_block :: str where
  "example_block =
     lit ''    Key Content   : old'' @ [13, 10] @ lit ''no separator here'' @ [10]
     @ lit ''  Key Content : secret : 123  '' @ [10] @ lit ''Cipher: CCMP''"

section \<open>The name that a listing line gives\<close>

text \<open>
  The name \<open>list_profiles\<close> reads from one line: group 1 of the pattern, stripped, when
  the pattern is found in the line.
\<close>

definition captured_name :: "str \<Rightarrow> str option" where
  "captured_name line =
     (case re_search profile_regex line of None \<Rightarrow> None | Some g \<Rightarrow> map_option strip (g 1))"

text \<open>
  The same reading stated without the pattern. A label of the table stands at the front
  of a string when the string starts with it, case-insensitively as \<open>re.IGNORECASE\<close>
  compares, and the label is followed by optional whitespace and a colon; what follows
  the colon, without its leading whitespace, is then the text after the label. The
  greedy \<open>.*\<close> at the front of the pattern makes the last such position of the line the
  one that counts. That the pattern computes this is proved below
  (\<open>re_search_profile_regex\<close>).
\<close>

definition profile_labels :: "str list" where
  "profile_labels =
     [lit ''All User Profile'', lit ''Todos los perfiles de usuario'',
      lit ''Perfil de todos los usuarios'']"

fun startswith_ci :: "str \<Rightarrow> str \<Rightarrow> bool" where
  "startswith_ci s [] = True"
| "startswith_ci [] (p # ps) = False"
| "startswith_ci (c # cs) (p # ps) = (ci p c \<and> startswith_ci cs ps)"

definition after_label :: "str \<Rightarrow> str \<Rightarrow> str option" where
  "after_label label s =
     (if startswith_ci s label then
        (case dropWhile isspace (drop (length label) s) of
           [] \<Rightarrow> None
         | c # rest \<Rightarrow> if c = colon then Some (lstrip rest) else None)
      else None)"

fun label_here :: "str list \<Rightarrow> str \<Rightarrow> str option" where
  "label_here [] s = None"
| "label_here (label # labels) s =
     (case after_label label s of Some n \<Rightarrow> Some n | None \<Rightarrow> label_here labels s)"

fun last_label :: "str \<Rightarrow> str option" where
  "last_label [] = label_here profile_labels []"
| "last_label (c # cs) =
     (case last_label cs of Some n \<Rightarrow> Some n | None \<Rightarrow> label_here profile_labels (c # cs))"

text \<open>
  A listing as netsh prints it, with a header, an empty line and two profile lines, the
  second with the Spanish label in lower case and spaces after the name.
\<close>

definition example_listing :: str where
  "example_listing =
     lit ''Profiles on interface Wi-Fi:'' @ [10] @ [10]
     @ lit ''    All User Profile     : Home'' @ [10]
     @ lit ''    todos los perfiles de usuario : Casa Azul  ''"

text \<open>A listing of three lines with the label, the second with nothing after the colon.\<close>

definition empty_name_listing :: str where
  "empty_name_listing =
     lit ''All User Profile : Home'' @ [10]
     @ lit ''All User Profile : '' @ [10]
     @ lit ''All User Profile : Office''"

section \<open>The scanner: what one scan returns\<close>

lemma name_credential_of: "name (credential_of loc p r) = p"
  by (cases "(loc, p, r)" rule: credential_of.cases) simp_all

lemma interface_credential_of: "interface (credential_of loc p r) = lit ''WiFi''"
  by (cases "(loc, p, r)" rule: credential_of.cases) simp_all

lemma collect_eq:
  "collect prov loc profiles acc order =
     acc @ map (\<lambda>i. credential_for prov loc (profiles ! i)) order"
  by (induction order arbitrary: acc) (simp_all add: credential_for_def)

text \<open>Whatever the order of completion, the completed futures are those of the listing.\<close>

lemma completion_order_mset:
  assumes "completion_order (length profiles) order"
  shows "mset (map (\<lambda>i. profiles ! i) order) = mset profiles"
proof -
  from assms have "mset order = mset [0..<length profiles]"
    using mset_set_set [of order] by (simp add: completion_order_def)
  then have "mset (map (\<lambda>i. profiles ! i) order) =
      mset (map (\<lambda>i. profiles ! i) [0..<length profiles])"
    by simp
  then show ?thesis by (simp add: map_nth)
qed

text \<open>Sorting the credentials by name is sorting the names.\<close>

lemma insort_key_name_map:
  "insort_key name (credential_for prov loc p) (map (credential_for prov loc) xs) =
     map (credential_for prov loc) (insort p xs)"
  by (induction xs) (simp_all add: credential_for_def name_credential_of)

lemma sort_key_name_map:
  "sort_key name (map (credential_for prov loc) ps) = map (credential_for prov loc) (sort ps)"
  by (induction ps) (simp_all add: insort_key_name_map)

lemma map_name_credential_for: "map name (map (credential_for prov loc) ps) = ps"
  by (induction ps) (simp_all add: credential_for_def name_credential_of)

lemma scan_listed:
  assumes "list_profiles prov = Inr profiles" "completion_order (length profiles) order"
  shows "scan prov loc order = Inr (map (credential_for prov loc) (sort profiles))"
proof -
  have "sort (map (\<lambda>i. profiles ! i) order) = sort profiles"
    using completion_order_mset [OF assms(2)] by (intro properties_for_sort) simp_all
  then have "sort_key name (collect prov loc profiles [] order) =
      map (credential_for prov loc) (sort profiles)"
    using sort_key_name_map [of prov loc "map (\<lambda>i. profiles ! i) order"]
    by (simp add: collect_eq comp_def)
  moreover have "profiles = [] \<Longrightarrow> map (credential_for prov loc) (sort profiles) = []"
    by simp
  ultimately show ?thesis using assms(1) by (auto simp add: scan_def)
qed

lemma scan_failed:
  "(scan prov loc order = Inl err) =
     (\<exists>e. list_profiles prov = Inl e \<and> err = ScannerServiceException e)"
  by (cases "list_profiles prov") (auto simp add: scan_def)

text \<open>The definitions that evaluate a concrete string.\<close>

lemmas ev = lit_def isspace_def dot_def is_colon_def colon_def ci_def ci_variants_def ascii_lower_def
  strip_def lstrip_def rstrip_def splitlines_def is_linebreak_def

lemma example_os_listing:
  "list_profiles (NetshWiFiProvider example_os loc) = Inr [lit ''Home'']"
  by (simp add: NetshWiFiProvider_def netsh_list_profiles_def run_def example_os_def
      parse_profile_names_def profile_regex_def re_match_def ev)

text \<open>
  Claim C1. When the listing returns distinct profile names, the scan returns one
  credential per listed name, whatever the lookups return or raise and in whatever order
  they complete: as many credentials as names, their names are the sorted listing, each
  listed name is the name of exactly one credential, and no credential has another name.
\<close>

theorem scan_one_credential_per_profile:
  assumes "list_profiles prov = Inr profiles"
    and "distinct profiles"
    and "completion_order (length profiles) order"
  shows "\<exists>creds. scan prov loc order = Inr creds
           \<and> length creds = length profiles
           \<and> map name creds = sort profiles
           \<and> (\<forall>p \<in> set profiles. length (filter (\<lambda>c. name c = p) creds) = 1)
           \<and> (\<forall>c \<in> set creds. name c \<in> set profiles)"
proof -
  let ?creds = "map (credential_for prov loc) (sort profiles)"
  have names: "map name ?creds = sort profiles"
    by (rule map_name_credential_for)
  have one: "length (filter (\<lambda>c. name c = p) ?creds) = 1" if "p \<in> set profiles" for p
  proof -
    have "length (filter (\<lambda>c. name c = p) ?creds) = length (filter (\<lambda>n. n = p) (map name ?creds))"
      by (simp only: filter_map comp_def length_map)
    also have "\<dots> = length (filter (\<lambda>n. n = p) (sort profiles))"
      by (simp only: names)
    also have "\<dots> = 1"
      using that assms(2) by (simp add: distinct_length_filter)
    finally show ?thesis .
  qed
  have "\<forall>c \<in> set ?creds. name c \<in> set profiles"
    by (auto simp add: credential_for_def name_credential_of)
  with one names scan_listed [OF assms(1,3)] show ?thesis
    by (intro exI [of _ ?creds]) simp
qed

theorem scan_one_credential_per_profile_witness:
  "list_profiles example_provider = Inr [lit ''Office'', lit ''Home'']
   \<and> distinct [lit ''Office'', lit ''Home'']
   \<and> completion_order (length [lit ''Office'', lit ''Home'']) [1, 0]
   \<and> (\<exists>creds. scan example_provider example_localization [1, 0] = Inr creds
           \<and> length creds = 2
           \<and> map name creds = [lit ''Home'', lit ''Office''])"
proof -
  have h1: "list_profiles example_provider = Inr [lit ''Office'', lit ''Home'']"
    by (simp add: example_provider_def)
  have h2: "distinct [lit ''Office'', lit ''Home'']"
    by (simp add: lit_def)
  have h3: "completion_order (length [lit ''Office'', lit ''Home'']) [1, 0]"
    by (auto simp add: completion_order_def)
  have "sort [lit ''Office'', lit ''Home''] = [lit ''Home'', lit ''Office'']"
    by (simp add: lit_def)
  with scan_one_credential_per_profile [OF h1 h2 h3, of example_localization] h1 h2 h3
  show ?thesis by auto
qed

text \<open>
  Claim C2. Whatever the order in which the lookups complete, the scan returns its
  credentials sorted by name in code point order, and two orders of completion give the
  same result.
\<close>

theorem scan_sorted_any_completion_order:
  assumes "list_profiles prov = Inr profiles"
    and "completion_order (length profiles) order1"
    and "completion_order (length profiles) order2"
  shows "\<exists>creds. scan prov loc order1 = Inr creds \<and> sorted (map name creds)
           \<and> scan prov loc order2 = Inr creds"
proof -
  let ?creds = "map (credential_for prov loc) (sort profiles)"
  have "sorted (map name ?creds)"
    by (simp only: map_name_credential_for sorted_sort)
  with scan_listed [OF assms(1,2)] scan_listed [OF assms(1,3)] show ?thesis
    by blast
qed

theorem scan_sorted_any_completion_order_witness:
  "list_profiles example_provider = Inr [lit ''Office'', lit ''Home'']
   \<and> completion_order (length [lit ''Office'', lit ''Home'']) [0, 1]
   \<and> completion_order (length [lit ''Office'', lit ''Home'']) [1, 0]
   \<and> (\<exists>creds. scan example_provider example_localization [0, 1] = Inr creds
         \<and> sorted (map name creds)
         \<and> scan example_provider example_localization [1, 0] = Inr creds)"
proof -
  have h1: "list_profiles example_provider = Inr [lit ''Office'', lit ''Home'']"
    by (simp add: example_provider_def)
  have h2: "completion_order (length [lit ''Office'', lit ''Home'']) [0, 1]"
    by (auto simp add: completion_order_def)
  have h3: "completion_order (length [lit ''Office'', lit ''Home'']) [1, 0]"
    by (auto simp add: completion_order_def)
  from scan_sorted_any_completion_order [OF h1 h2 h3, of example_localization] h1 h2 h3
  show ?thesis by blast
qed

text \<open>
  Claim C5. The scan raises exactly when the listing raises, and then it raises the
  wrapping \<open>ScannerServiceException\<close>; when a lookup raises any exception, the scan
  still returns, with the credential that the handlers build for that profile.
  Exceptions are the subclasses of \<open>Exception\<close>.
\<close>

theorem scan_raises_only_when_listing_fails:
  "((\<exists>err. scan prov loc order = Inl err) \<longleftrightarrow> (\<exists>e. list_profiles prov = Inl e))
   \<and> (list_profiles prov = Inl e \<longrightarrow> scan prov loc order = Inl (ScannerServiceException e))
   \<and> (list_profiles prov = Inr profiles \<and> completion_order (length profiles) order
        \<and> p \<in> set profiles \<and> get_password prov p = Inl e'
      \<longrightarrow> (\<exists>creds. scan prov loc order = Inr creds
             \<and> credential_of loc p (Inl e') \<in> set creds))"
proof (intro conjI impI)
  show "(\<exists>err. scan prov loc order = Inl err) \<longleftrightarrow> (\<exists>e. list_profiles prov = Inl e)"
    by (auto simp add: scan_failed)
next
  assume "list_profiles prov = Inl e"
  then show "scan prov loc order = Inl (ScannerServiceException e)"
    by (simp add: scan_failed)
next
  assume h: "list_profiles prov = Inr profiles \<and> completion_order (length profiles) order
      \<and> p \<in> set profiles \<and> get_password prov p = Inl e'"
  then have "scan prov loc order = Inr (map (credential_for prov loc) (sort profiles))"
    by (simp add: scan_listed)
  moreover from h have "credential_of loc p (Inl e') \<in> set (map (credential_for prov loc) (sort profiles))"
    by (auto simp add: credential_for_def image_iff intro!: bexI [of _ p])
  ultimately show "\<exists>creds. scan prov loc order = Inr creds \<and> credential_of loc p (Inl e') \<in> set creds"
    by blast
qed

theorem scan_raises_only_when_listing_fails_witness:
  "list_profiles failing_provider = Inl (CalledProcessError 1 [] [])
   \<and> scan failing_provider example_localization [] =
       Inl (ScannerServiceException (CalledProcessError 1 [] []))
   \<and> list_profiles example_provider = Inr [lit ''Office'', lit ''Home'']
   \<and> completion_order (length [lit ''Office'', lit ''Home'']) [1, 0]
   \<and> lit ''Office'' \<in> set [lit ''Office'', lit ''Home'']
   \<and> get_password example_provider (lit ''Office'') = Inl (OtherError (lit ''boom''))
   \<and> (\<exists>creds. scan example_provider example_localization [1, 0] = Inr creds
         \<and> \<lparr>name = lit ''Office'', password = Some (lit ''Error''), interface = lit ''WiFi''\<rparr>
             \<in> set creds)"
proof -
  have f: "list_profiles failing_provider = Inl (CalledProcessError 1 [] [])"
    by (simp add: failing_provider_def)
  have h1: "list_profiles example_provider = Inr [lit ''Office'', lit ''Home'']"
    by (simp add: example_provider_def)
  have h2: "completion_order (length [lit ''Office'', lit ''Home'']) [1, 0]"
    by (auto simp add: completion_order_def)
  have h3: "lit ''Office'' \<in> set [lit ''Office'', lit ''Home'']"
    by simp
  have h4: "get_password example_provider (lit ''Office'') = Inl (OtherError (lit ''boom''))"
    by (simp add: example_provider_def)
  have c: "credential_of example_localization (lit ''Office'') (Inl (OtherError (lit ''boom''))) =
      \<lparr>name = lit ''Office'', password = Some (lit ''Error''), interface = lit ''WiFi''\<rparr>"
    by (simp add: get_string_def example_localization_def lit_def)
  from scan_raises_only_when_listing_fails
    [of failing_provider example_localization "[]" "CalledProcessError 1 [] []"]
    scan_raises_only_when_listing_fails
    [of example_provider example_localization "[1, 0]" _ "[lit ''Office'', lit ''Home'']"
      "lit ''Office''" "OtherError (lit ''boom'')"]
    f h1 h2 h3 h4 c
  show ?thesis by (simp del: set_simps)
qed

text \<open>
  Claim C9. Every credential of a scan result has the interface \<open>WiFi\<close>, in every
  branch of the handlers; the scan does not depend on the provider's interface name,
  which for the netsh provider is the different string \<open>Wi-Fi\<close>.
\<close>

theorem scan_interface_is_literal_WiFi:
  "(scan prov loc order = Inr creds \<longrightarrow> (\<forall>c \<in> set creds. interface c = lit ''WiFi''))
   \<and> interface (credential_of loc p r) = lit ''WiFi''
   \<and> scan (prov\<lparr>get_interface_name := x\<rparr>) loc order = scan prov loc order
   \<and> get_interface_name (NetshWiFiProvider sys loc) = lit ''Wi-Fi''
   \<and> lit ''Wi-Fi'' \<noteq> lit ''WiFi''"
proof (intro conjI impI)
  assume "scan prov loc order = Inr creds"
  then have "set creds \<subseteq> set (collect prov loc profiles [] order) \<or> creds = []"
    if "list_profiles prov = Inr profiles" for profiles
    using that by (auto simp add: scan_def split: if_splits)
  then show "\<forall>c \<in> set creds. interface c = lit ''WiFi''"
    using \<open>scan prov loc order = Inr creds\<close>
    by (cases "list_profiles prov")
      (auto simp add: scan_def collect_eq credential_for_def interface_credential_of)
next
  show "interface (credential_of loc p r) = lit ''WiFi''"
    by (rule interface_credential_of)
next
  have "collect (prov\<lparr>get_interface_name := x\<rparr>) loc profiles [] order = collect prov loc profiles [] order"
    for profiles
    by (simp add: collect_eq credential_for_def)
  then show "scan (prov\<lparr>get_interface_name := x\<rparr>) loc order = scan prov loc order"
    by (cases "list_profiles prov") (simp_all add: scan_def)
next
  show "get_interface_name (NetshWiFiProvider sys loc) = lit ''Wi-Fi''"
    by (simp add: NetshWiFiProvider_def)
next
  show "lit ''Wi-Fi'' \<noteq> lit ''WiFi''"
    by (simp add: lit_def)
qed

lemma example_scan:
  "scan example_provider example_localization [1, 0] =
     Inr [\<lparr>name = lit ''Home'', password = Some (lit ''secret123''), interface = lit ''WiFi''\<rparr>,
          \<lparr>name = lit ''Office'', password = Some (lit ''Error''), interface = lit ''WiFi''\<rparr>]"
  by (simp add: scan_def example_provider_def example_localization_def get_string_def lit_def)

theorem scan_interface_is_literal_WiFi_witness:
  "scan example_provider example_localization [1, 0] =
     Inr [\<lparr>name = lit ''Home'', password = Some (lit ''secret123''), interface = lit ''WiFi''\<rparr>,
          \<lparr>name = lit ''Office'', password = Some (lit ''Error''), interface = lit ''WiFi''\<rparr>]
   \<and> map interface
         [\<lparr>name = lit ''Home'', password = Some (lit ''secret123''), interface = lit ''WiFi''\<rparr>,
          \<lparr>name = lit ''Office'', password = Some (lit ''Error''), interface = lit ''WiFi''\<rparr>]
       = [lit ''WiFi'', lit ''WiFi'']"
  using scan_interface_is_literal_WiFi [of example_provider example_localization "[1, 0]"
      "[\<lparr>name = lit ''Home'', password = Some (lit ''secret123''), interface = lit ''WiFi''\<rparr>,
        \<lparr>name = lit ''Office'', password = Some (lit ''Error''), interface = lit ''WiFi''\<rparr>]"]
    example_scan
  by simp

text \<open>
  Claim C4, as amended. When the query command of a listed profile exits with a non-zero
  return code, with or without a not-found marker in its output, the scan still returns
  and has a credential for that profile whose password is \<open>None\<close>: the provider catches
  the \<open>CalledProcessError\<close> and returns \<open>None\<close>, and the scanner stores what the provider
  returned.
\<close>

theorem scan_failed_query_gives_absent_password:
  assumes "sys [lit ''netsh'', lit ''wlan'', lit ''show'', lit ''profile'', p, lit ''key=clear'']
             = Exited rc out err"
    and "rc \<noteq> 0"
    and "list_profiles (NetshWiFiProvider sys loc) = Inr profiles"
    and "p \<in> set profiles"
    and "completion_order (length profiles) order"
  shows "\<exists>creds. scan (NetshWiFiProvider sys loc) loc order = Inr creds
           \<and> \<lparr>name = p, password = None, interface = lit ''WiFi''\<rparr> \<in> set creds"
proof -
  let ?prov = "NetshWiFiProvider sys loc"
  from assms(1,2) have "get_password ?prov p = Inr None"
    by (simp add: NetshWiFiProvider_def netsh_get_password_def run_def)
  then have "credential_for ?prov loc p = \<lparr>name = p, password = None, interface = lit ''WiFi''\<rparr>"
    by (simp add: credential_for_def)
  with assms(4) have "\<lparr>name = p, password = None, interface = lit ''WiFi''\<rparr>
      \<in> set (map (credential_for ?prov loc) (sort profiles))"
    by (auto simp add: image_iff intro!: bexI [of _ p])
  with scan_listed [OF assms(3,5)] show ?thesis by blast
qed

text \<open>
  Claim C4 as stated asks for a placeholder status string in the password. For the
  operating system above, the only credential of the scan has no password at all.
\<close>

theorem scan_failed_query_counterexample:
  "example_os [lit ''netsh'', lit ''wlan'', lit ''show'', lit ''profile'', lit ''Home'', lit ''key=clear'']
     = Exited 1 (lit ''Profile Home is not found on the system.'') []
   \<and> scan (NetshWiFiProvider example_os example_localization) example_localization [0] =
       Inr [\<lparr>name = lit ''Home'', password = None, interface = lit ''WiFi''\<rparr>]
   \<and> password \<lparr>name = lit ''Home'', password = None, interface = lit ''WiFi''\<rparr>
       \<noteq> Some (get_string example_localization (lit ''status_general_error'') [])"
proof -
  have "get_password (NetshWiFiProvider example_os example_localization) (lit ''Home'') = Inr None"
    by (simp add: NetshWiFiProvider_def netsh_get_password_def run_def example_os_def lit_def)
  then show ?thesis
    using example_os_listing [of example_localization]
    by (simp add: scan_def example_os_def lit_def)
qed

theorem scan_failed_query_gives_absent_password_witness:
  "example_os [lit ''netsh'', lit ''wlan'', lit ''show'', lit ''profile'', lit ''Home'', lit ''key=clear'']
     = Exited 1 (lit ''Profile Home is not found on the system.'') []
   \<and> (1::int) \<noteq> 0
   \<and> list_profiles (NetshWiFiProvider example_os example_localization) = Inr [lit ''Home'']
   \<and> lit ''Home'' \<in> set [lit ''Home'']
   \<and> completion_order (length [lit ''Home'']) [0]
   \<and> (\<exists>creds. scan (NetshWiFiProvider example_os example_localization) example_localization [0]
          = Inr creds
        \<and> \<lparr>name = lit ''Home'', password = None, interface = lit ''WiFi''\<rparr> \<in> set creds)"
proof -
  have h1: "example_os [lit ''netsh'', lit ''wlan'', lit ''show'', lit ''profile'', lit ''Home'', lit ''key=clear'']
     = Exited 1 (lit ''Profile Home is not found on the system.'') []"
    by (simp add: example_os_def lit_def)
  have h2: "(1::int) \<noteq> 0" by simp
  note h3 = example_os_listing [of example_localization]
  have h4: "lit ''Home'' \<in> set [lit ''Home'']" by simp
  have h5: "completion_order (length [lit ''Home'']) [0]"
    by (auto simp add: completion_order_def)
  from scan_failed_query_gives_absent_password [OF h1 h2 h3 h4 h5] h1 h2 h3 h4 h5
  show ?thesis by blast
qed

section \<open>The classification\<close>

lemmas tables = key_content_def security_key_def security_key_absent_def authentication_def
  autenticacion_def auth_open_def

lemma startswith_iff: "startswith s p \<longleftrightarrow> (\<exists>post. s = p @ post)"
  by (induction s p rule: startswith.induct) auto

lemma str_contains_iff: "str_contains s sub \<longleftrightarrow> (\<exists>pre post. s = pre @ sub @ post)"
proof (induction s)
  case Nil
  then show ?case by auto
next
  case (Cons c cs)
  show ?case
  proof
    assume "str_contains (c # cs) sub"
    then consider "startswith (c # cs) sub" | "str_contains cs sub" by auto
    then show "\<exists>pre post. c # cs = pre @ sub @ post"
    proof cases
      case 1
      then obtain post where "c # cs = [] @ sub @ post" by (auto simp add: startswith_iff)
      then show ?thesis by blast
    next
      case 2
      with Cons.IH obtain pre post where "cs = pre @ sub @ post" by blast
      then have "c # cs = (c # pre) @ sub @ post" by simp
      then show ?thesis by blast
    qed
  next
    assume "\<exists>pre post. c # cs = pre @ sub @ post"
    then obtain pre post where e: "c # cs = pre @ sub @ post" by blast
    show "str_contains (c # cs) sub"
    proof (cases pre)
      case Nil
      with e have "startswith (c # cs) sub" by (auto simp add: startswith_iff)
      then show ?thesis by simp
    next
      case (Cons a pre')
      with e have "cs = pre' @ sub @ post" by simp
      with Cons.IH have "str_contains cs sub" by blast
      then show ?thesis by simp
    qed
  qed
qed

lemma any_in_iff:
  "any_in variants v \<longleftrightarrow> (\<exists>a \<in> set variants. \<exists>pre post. v = pre @ a @ post)"
  by (simp add: any_in_def list_ex_iff str_contains_iff)

lemma lookup_first_None: "lookup_first ks d = None \<longleftrightarrow> (\<forall>k \<in> set ks. d k = None)"
  by (induction ks) (auto split: option.splits)

lemma security_absent_iff:
  "security_absent ks d \<longleftrightarrow> (\<exists>k \<in> set ks. \<exists>v. d k = Some v \<and> any_in security_key_absent v)"
  by (induction ks) (auto split: option.splits)

lemma first_key_lookup:
  "[] \<notin> set ks \<Longrightarrow>
   (case first_key ks d of
      None \<Rightarrow> False
    | Some k \<Rightarrow> k \<noteq> [] \<and> (case d k of None \<Rightarrow> False | Some v \<Rightarrow> P v))
   \<longleftrightarrow> (\<exists>v. lookup_first ks d = Some v \<and> P v)"
  by (induction ks) (auto split: option.splits)

lemma authentication_nonempty: "[] \<notin> set authentication"
  by (simp add: authentication_def autenticacion_def lit_def)

lemma classify_by_lookups:
  "classify loc details profile =
     (case lookup_first key_content details of
        Some v \<Rightarrow> Inr (Some v)
      | None \<Rightarrow>
          if security_absent security_key details
             \<or> (\<exists>v. lookup_first authentication details = Some v \<and> any_in auth_open v)
          then Inl (OpenNetworkException profile)
          else Inl (AdminRightsRequiredError profile
                 (get_string loc (lit ''error_password_not_found_admin_required'')
                    [(lit ''profile_name'', profile)])))"
  by (simp add: classify_def first_key_lookup [OF authentication_nonempty]
      split: option.splits)

text \<open>
  Claim C3, as amended. The classification follows the decision order: when a key-content
  label is present, the result is the value of the first key-content variant present,
  whatever the other fields say; otherwise, when some security-key variant is present
  with a value containing an absent-value variant, or when the first authentication
  variant present (in the order of the table) has a value containing an open-value
  variant, the result is \<open>OpenNetworkException\<close>; otherwise it is
  \<open>AdminRightsRequiredError\<close> with the localised message.
\<close>

theorem classify_decision_order:
  "classify loc details profile =
     (if \<exists>k \<in> set key_content. details k \<noteq> None
        then Inr (lookup_first key_content details)
      else if (\<exists>k \<in> set security_key. \<exists>v. details k = Some v \<and> any_in security_key_absent v)
            \<or> (\<exists>v. lookup_first authentication details = Some v \<and> any_in auth_open v)
        then Inl (OpenNetworkException profile)
      else Inl (AdminRightsRequiredError profile
             (get_string loc (lit ''error_password_not_found_admin_required'')
                [(lit ''profile_name'', profile)])))"
proof (cases "lookup_first key_content details")
  case None
  then have "\<not> (\<exists>k \<in> set key_content. details k \<noteq> None)"
    by (simp add: lookup_first_None)
  with None show ?thesis
    by (simp add: classify_by_lookups security_absent_iff)
next
  case (Some v)
  then have "\<exists>k \<in> set key_content. details k \<noteq> None"
    using lookup_first_None [of key_content details] by auto
  with Some show ?thesis
    by (simp add: classify_by_lookups)
qed

theorem classify_decision_order_witness:
  "classify example_localization
     [lit ''Key Content'' \<mapsto> lit ''secret123'', lit ''Security key'' \<mapsto> lit ''Absent'']
     (lit ''Home'') = Inr (Some (lit ''secret123''))"
  using classify_decision_order [of example_localization
      "[lit ''Key Content'' \<mapsto> lit ''secret123'', lit ''Security key'' \<mapsto> lit ''Absent'']"
      "lit ''Home''"]
  by (simp add: tables lit_def)

text \<open>
  Claim C3 as stated lets any authentication label decide. With both authentication
  labels present, no key and no security-key label, the Spanish label has the open value
  \<open>Abierta\<close>, and still the result is \<open>AdminRightsRequiredError\<close>: only the first
  label present, the English one, is consulted.
\<close>

theorem classify_mixed_labels_counterexample:
  "lookup_first key_content mixed_fields = None
   \<and> autenticacion \<in> set authentication
   \<and> mixed_fields (autenticacion) = Some (lit ''Abierta'')
   \<and> any_in auth_open (lit ''Abierta'')
   \<and> classify example_localization mixed_fields (lit ''Home'') =
       Inl (AdminRightsRequiredError (lit ''Home'') (lit ''Admin rights required''))"
  by (simp add: classify_def mixed_fields_def tables any_in_def example_localization_def
      get_string_def lit_def)

text \<open>
  Claim C10, as amended. Values are matched by containment, not by equality: with no
  key-content label, the result is \<open>OpenNetworkException\<close> as soon as the value of some
  security-key variant that is present contains an absent-value variant somewhere inside
  it, or the value of the first authentication variant present (in the order of the
  table) contains an open-value variant somewhere inside it.
\<close>

theorem classify_open_by_substring:
  assumes "\<forall>k \<in> set key_content. details k = None"
    and "(\<exists>k \<in> set security_key. \<exists>a \<in> set security_key_absent. \<exists>pre post.
            details k = Some (pre @ a @ post))
         \<or> (\<exists>a \<in> set auth_open. \<exists>pre post.
            lookup_first authentication details = Some (pre @ a @ post))"
  shows "classify loc details profile = Inl (OpenNetworkException profile)"
proof -
  from assms(1) have "lookup_first key_content details = None"
    by (simp add: lookup_first_None)
  moreover from assms(2) have
    "security_absent security_key details
     \<or> (\<exists>v. lookup_first authentication details = Some v \<and> any_in auth_open v)"
    unfolding security_absent_iff any_in_iff by blast
  ultimately show ?thesis
    by (simp only: classify_by_lookups option.case if_True)
qed

theorem classify_open_by_substring_witness:
  "lookup_first authentication open_fields = Some (lit ''WPA2-'' @ lit ''Open'' @ lit ''-Mixed'')
   \<and> lit ''WPA2-'' @ lit ''Open'' @ lit ''-Mixed'' \<noteq> lit ''Open''
   \<and> classify example_localization open_fields (lit ''Home'') =
       Inl (OpenNetworkException (lit ''Home''))"
proof -
  have h1: "\<forall>k \<in> set key_content. open_fields k = None"
    by (simp add: open_fields_def tables lit_def)
  have l: "lookup_first authentication open_fields = Some (lit ''WPA2-'' @ lit ''Open'' @ lit ''-Mixed'')"
    by (simp add: open_fields_def tables lit_def)
  have "lit ''Open'' \<in> set auth_open"
    by (simp add: tables)
  with l have h2: "(\<exists>k \<in> set security_key. \<exists>a \<in> set security_key_absent. \<exists>pre post.
            open_fields k = Some (pre @ a @ post))
         \<or> (\<exists>a \<in> set auth_open. \<exists>pre post.
            lookup_first authentication open_fields = Some (pre @ a @ post))"
    by blast
  have "lit ''WPA2-'' @ lit ''Open'' @ lit ''-Mixed'' \<noteq> lit ''Open''"
    by (simp add: lit_def)
  with classify_open_by_substring [OF h1 h2, of example_localization "lit ''Home''"] l
  show ?thesis by simp
qed

text \<open>
  Claim C10 as stated lets the value of any authentication label decide, as it does for
  the security-key labels. Here no key-content label is present and the value of the
  Spanish authentication label contains \<open>Abierta\<close> between other text, and the result
  is \<open>AdminRightsRequiredError\<close>: the English label is present too, it is the one
  consulted, and its value contains no open-value variant.
\<close>

theorem classify_open_by_substring_counterexample:
  "shadowed_open_fields (lit ''Key Content'') = None
   \<and> shadowed_open_fields (lit ''Contenido de la clave'') = None
   \<and> autenticacion \<in> set authentication
   \<and> lit ''Abierta'' \<in> set auth_open
   \<and> shadowed_open_fields autenticacion =
       Some (lit ''Red '' @ lit ''Abierta'' @ lit '' (sin clave)'')
   \<and> classify example_localization shadowed_open_fields (lit ''Home'') =
       Inl (AdminRightsRequiredError (lit ''Home'') (lit ''Admin rights required''))"
  by (simp add: classify_def shadowed_open_fields_def tables any_in_def
      example_localization_def get_string_def lit_def)

lemma any_in_absent_translate:
  "any_in security_key_absent (translate_value (lit ''Ausente'') (lit ''Absent'') v) =
   any_in security_key_absent v"
  by (simp add: translate_value_def any_in_def security_key_absent_def lit_def)

lemma any_in_open_translate:
  "any_in auth_open (translate_value (lit ''Abierta'') (lit ''Open'') v) =
   any_in auth_open v"
  by (simp add: translate_value_def any_in_def auth_open_def lit_def)

lemma english_equivalent_labels:
  "english_equivalent d (lit ''Key Content'') = d (lit ''Contenido de la clave'')"
  "english_equivalent d (lit ''Security key'') =
     map_option (translate_value (lit ''Ausente'') (lit ''Absent'')) (d (lit ''Clave de seguridad''))"
  "english_equivalent d (lit ''Authentication'') =
     map_option (translate_value (lit ''Abierta'') (lit ''Open''))
       (d (autenticacion))"
  "english_equivalent d (lit ''Contenido de la clave'') = None"
  "english_equivalent d (lit ''Clave de seguridad'') = None"
  "english_equivalent d (autenticacion) = None"
  by (simp_all add: english_equivalent_def autenticacion_def lit_def)

lemma english_equivalent_key_content:
  "spanish_labelled d \<Longrightarrow>
   lookup_first key_content (english_equivalent d) = lookup_first key_content d"
  by (simp add: spanish_labelled_def english_equivalent_labels key_content_def
      split: option.splits)

lemma english_equivalent_security:
  "spanish_labelled d \<Longrightarrow>
   security_absent security_key (english_equivalent d) = security_absent security_key d"
  by (simp add: spanish_labelled_def english_equivalent_labels security_key_def
      any_in_absent_translate split: option.splits)

lemma english_equivalent_authentication:
  "spanish_labelled d \<Longrightarrow>
   (\<exists>v. lookup_first authentication (english_equivalent d) = Some v \<and> any_in auth_open v) =
   (\<exists>v. lookup_first authentication d = Some v \<and> any_in auth_open v)"
  by (auto simp add: spanish_labelled_def english_equivalent_labels authentication_def
      any_in_open_translate split: option.splits)

text \<open>
  Claim C8. Parsed fields that use the Spanish variants are classified as their English
  equivalent is: the same key, the same exception, the same message.
\<close>

theorem classify_spanish_as_english:
  assumes "spanish_labelled details"
  shows "classify loc (english_equivalent details) profile = classify loc details profile"
  by (simp only: classify_by_lookups english_equivalent_key_content [OF assms]
      english_equivalent_security [OF assms] english_equivalent_authentication [OF assms])

theorem classify_spanish_as_english_witness:
  "spanish_labelled spanish_fields
   \<and> english_equivalent spanish_fields (lit ''Security key'') = Some (lit ''Absent'')
   \<and> english_equivalent spanish_fields (lit ''Authentication'') = Some (lit ''Open'')
   \<and> classify example_localization spanish_fields (lit ''Home'') =
       Inl (OpenNetworkException (lit ''Home''))
   \<and> classify example_localization (english_equivalent spanish_fields) (lit ''Home'') =
       Inl (OpenNetworkException (lit ''Home''))"
proof -
  have h: "spanish_labelled spanish_fields"
    by (simp add: spanish_labelled_def spanish_fields_def autenticacion_def lit_def)
  have c: "classify example_localization spanish_fields (lit ''Home'') =
       Inl (OpenNetworkException (lit ''Home''))"
    by (simp add: classify_def spanish_fields_def tables any_in_def lit_def)
  have e: "english_equivalent spanish_fields (lit ''Security key'') = Some (lit ''Absent'')
     \<and> english_equivalent spanish_fields (lit ''Authentication'') = Some (lit ''Open'')"
    by (simp add: english_equivalent_def spanish_fields_def translate_value_def
        autenticacion_def lit_def)
  from classify_spanish_as_english [OF h, of example_localization "lit ''Home''"] h c e
  show ?thesis by simp
qed

section \<open>The field-block parser\<close>

subsection \<open>Stars\<close>

lemma bt_StarG_commit:
  assumes "\<And>c cs g. p c \<Longrightarrow> k (c # cs) g = None"
  shows "bt (StarG p) s g k = k (dropWhile p s) g"
proof (induction s)
  case Nil
  show ?case by simp
next
  case (Cons c cs)
  then show ?case
    by (cases "k (dropWhile p cs) g") (simp_all add: assms)
qed

lemma bt_StarG_first:
  "k (dropWhile p s) g = Some r \<Longrightarrow> bt (StarG p) s g k = Some r"
  by (induction s) auto

lemma bt_StarG_none:
  "(\<And>i. i \<le> length s \<Longrightarrow> k (drop i s) g = None) \<Longrightarrow> bt (StarG p) s g k = None"
proof (induction s)
  case Nil
  then show ?case by simp
next
  case (Cons c cs)
  have "k (drop i cs) g = None" if "i \<le> length cs" for i
    using Cons.prems [of "Suc i"] that by simp
  then have "bt (StarG p) cs g k = None" by (rule Cons.IH)
  moreover have "k (c # cs) g = None" using Cons.prems [of 0] by simp
  ultimately show ?case by simp
qed

lemma bt_StarL_none:
  "(\<And>i. i \<le> length s \<Longrightarrow> k (drop i s) g = None) \<Longrightarrow> bt (StarL p) s g k = None"
proof (induction s)
  case Nil
  then show ?case using Nil [of 0] by simp
next
  case (Cons c cs)
  have "k (drop i cs) g = None" if "i \<le> length cs" for i
    using Cons.prems [of "Suc i"] that by simp
  then have "bt (StarL p) cs g k = None" by (rule Cons.IH)
  moreover have "k (c # cs) g = None" using Cons.prems [of 0] by simp
  ultimately show ?case by simp
qed

lemma bt_StarL_first:
  "j \<le> length s \<Longrightarrow> \<forall>c \<in> set (take j s). p c \<Longrightarrow>
   (\<And>i. i < j \<Longrightarrow> k (drop i s) g = None) \<Longrightarrow> k (drop j s) g = Some r \<Longrightarrow>
   bt (StarL p) s g k = Some r"
proof (induction s arbitrary: j)
  case Nil
  then show ?case by simp
next
  case (Cons c cs)
  show ?case
  proof (cases j)
    case 0
    with Cons.prems(4) show ?thesis by simp
  next
    case (Suc j')
    have none0: "k (c # cs) g = None" using Cons.prems(3) [of 0] Suc by simp
    have pc: "p c" using Cons.prems(2) Suc by simp
    have "bt (StarL p) cs g k = Some r"
    proof (rule Cons.IH [of j'])
      show "j' \<le> length cs" using Cons.prems(1) Suc by simp
      show "\<forall>c \<in> set (take j' cs). p c" using Cons.prems(2) Suc by simp
      show "k (drop i cs) g = None" if "i < j'" for i
        using Cons.prems(3) [of "Suc i"] that Suc by simp
      show "k (drop j' cs) g = Some r" using Cons.prems(4) Suc by simp
    qed
    with none0 pc show ?thesis by simp
  qed
qed

subsection \<open>Whitespace\<close>

lemma colon_not_space: "\<not> isspace colon"
  by (simp add: isspace_def colon_def)

lemma take_length_dropWhile: "take (length s - length (dropWhile p s)) s = takeWhile p s"
proof -
  have "length s - length (dropWhile p s) = length (takeWhile p s)"
    by (induction s) (simp_all add: Suc_diff_le length_dropWhile_le)
  with takeWhile_eq_take [of p s] show ?thesis by simp
qed

lemma takeWhile_dropWhile_commute:
  "(\<And>x. P x \<Longrightarrow> Q x) \<Longrightarrow> takeWhile Q (dropWhile P xs) = dropWhile P (takeWhile Q xs)"
  by (induction xs) auto

lemma dropWhile_dropWhile_weaker:
  "(\<And>x. P x \<Longrightarrow> Q x) \<Longrightarrow> dropWhile Q (dropWhile P xs) = dropWhile Q xs"
  by (induction xs) auto

lemma rstrip_decomp: "\<exists>w. a = rstrip a @ w \<and> (\<forall>c \<in> set w. isspace c)"
proof -
  have "rev a = takeWhile isspace (rev a) @ dropWhile isspace (rev a)" by simp
  then have "a = rev (dropWhile isspace (rev a)) @ rev (takeWhile isspace (rev a))"
    by (metis rev_append rev_rev_ident)
  moreover have "\<forall>c \<in> set (rev (takeWhile isspace (rev a))). isspace c"
    by (auto dest: set_takeWhileD)
  ultimately show ?thesis unfolding rstrip_def by blast
qed

lemma rstrip_last: "rstrip a \<noteq> [] \<Longrightarrow> \<not> isspace (last (rstrip a))"
  unfolding rstrip_def by (simp add: last_rev hd_dropWhile)

lemma rstrip_keeps_head: "\<not> isspace c \<Longrightarrow> rstrip (c # cs) = c # rstrip cs"
proof -
  assume c: "\<not> isspace c"
  have "dropWhile isspace (rev cs @ [c]) = dropWhile isspace (rev cs) @ [c]"
  proof (cases "\<forall>x \<in> set (rev cs). isspace x")
    case True
    then have "dropWhile isspace (rev cs) = []" by simp
    moreover from True have "dropWhile isspace (rev cs @ [c]) = dropWhile isspace [c]"
      by (intro dropWhile_append2) simp
    ultimately show ?thesis using c by simp
  next
    case False
    then show ?thesis by (auto simp add: dropWhile_append1)
  qed
  then show ?thesis by (simp add: rstrip_def)
qed

lemma lstrip_head: "lstrip s = [] \<or> \<not> isspace (hd (lstrip s))"
  unfolding lstrip_def by (cases "dropWhile isspace s = []") (simp_all add: hd_dropWhile)

lemma lstrip_strip: "lstrip (strip s) = strip s"
proof (cases "lstrip s")
  case Nil
  then have "strip s = []" by (simp add: strip_def rstrip_def)
  then show ?thesis by (simp add: lstrip_def)
next
  case (Cons c cs)
  with lstrip_head [of s] have "\<not> isspace c" by simp
  with Cons show ?thesis by (simp add: strip_def rstrip_keeps_head) (simp add: lstrip_def)
qed

lemma rstrip_rstrip: "rstrip (rstrip s) = rstrip s"
  by (simp add: rstrip_def dropWhile_idem)

lemma strip_strip: "strip (strip s) = strip s"
proof -
  have "strip (strip s) = rstrip (lstrip (strip s))" by (simp add: strip_def)
  also have "\<dots> = rstrip (strip s)" by (simp only: lstrip_strip)
  also have "\<dots> = strip s" by (simp add: strip_def rstrip_rstrip)
  finally show ?thesis .
qed

lemma strip_lstrip: "strip (lstrip s) = strip s"
  by (simp add: strip_def lstrip_def dropWhile_idem)


subsection \<open>The two patterns\<close>

text \<open>From here on a star is unfolded by the lemmas above only.\<close>

lemmas bt_star = bt.simps(5) bt.simps(6)

declare bt.simps(5) [simp del] bt.simps(6) [simp del]

lemma bt_value:
  "bt (Seq (StarG isspace) (Grp n (StarG dot))) s g (\<lambda>_ g. Some g) =
     Some (g(n \<mapsto> takeWhile dot (dropWhile isspace s)))"
proof -
  have "bt (StarG dot) s' g' (\<lambda>s'' g''. Some (g''(n \<mapsto> take (length s' - length s'') s'))) =
      Some (g'(n \<mapsto> takeWhile dot s'))" for s' g'
    by (rule bt_StarG_first) (simp add: take_length_dropWhile)
  then have "bt (Grp n (StarG dot)) s' g' (\<lambda>_ g. Some g) = Some (g'(n \<mapsto> takeWhile dot s'))"
    for s' g'
    by simp
  then show ?thesis
    by (simp add: bt_StarG_first del: bt.simps(7))
qed

lemma bt_colon_value:
  "bt (Seq (StarG isspace) (Seq (Chr is_colon) (Seq (StarG isspace) (Grp n (StarG dot)))))
      s g (\<lambda>_ g. Some g) =
     (case dropWhile isspace s of
        [] \<Rightarrow> None
      | c # rest \<Rightarrow>
          if c = colon then Some (g(n \<mapsto> takeWhile dot (dropWhile isspace rest))) else None)"
proof -
  define k where "k = (\<lambda>s' g'.
      bt (Seq (Chr is_colon) (Seq (StarG isspace) (Grp n (StarG dot)))) s' g' (\<lambda>_ g. Some g))"
  have none: "k (c # cs) g = None" if "isspace c" for c cs g
    unfolding k_def using that colon_not_space by (auto simp add: is_colon_def)
  have commit: "bt (StarG isspace) s g k = k (dropWhile isspace s) g"
    by (rule bt_StarG_commit) (rule none)
  have nil: "k [] g = None"
    unfolding k_def by simp
  have cons: "k (c # rest) g =
      (if c = colon then Some (g(n \<mapsto> takeWhile dot (dropWhile isspace rest))) else None)"
    for c rest
    unfolding k_def using bt_value [of n rest g] by (simp add: is_colon_def)
  have "bt (Seq (StarG isspace) (Seq (Chr is_colon) (Seq (StarG isspace) (Grp n (StarG dot)))))
      s g (\<lambda>_ g. Some g) = bt (StarG isspace) s g k"
    unfolding k_def by (simp only: bt.simps(3))
  with commit have e: "bt (Seq (StarG isspace) (Seq (Chr is_colon) (Seq (StarG isspace) (Grp n (StarG dot)))))
      s g (\<lambda>_ g. Some g) = k (dropWhile isspace s) g"
    by (simp only:)
  show ?thesis
  proof (cases "dropWhile isspace s")
    case Nil
    show ?thesis by (simp only: e Nil nil list.case)
  next
    case (Cons c rest)
    show ?thesis by (simp only: e Cons cons list.case)
  qed
qed


lemma split_at_colon:
  assumes "colon \<in> set s"
  shows "s = takeWhile (\<lambda>c. c \<noteq> colon) s @ colon # tl (dropWhile (\<lambda>c. c \<noteq> colon) s)"
proof -
  from assms have ne: "dropWhile (\<lambda>c. c \<noteq> colon) s \<noteq> []" by auto
  then have "hd (dropWhile (\<lambda>c. c \<noteq> colon) s) = colon"
    using hd_dropWhile [of "\<lambda>c. c \<noteq> colon" s] by simp
  with ne have "dropWhile (\<lambda>c. c \<noteq> colon) s = colon # tl (dropWhile (\<lambda>c. c \<noteq> colon) s)"
    by (cases "dropWhile (\<lambda>c. c \<noteq> colon) s") simp_all
  then show ?thesis
    using takeWhile_dropWhile_id [of "\<lambda>c. c \<noteq> colon" s] by simp
qed

lemma bt_label_value:
  assumes colon: "colon \<in> set s" and dots: "\<forall>c \<in> set s. dot c"
  shows "bt (Seq (Grp 1 (StarL dot))
           (Seq (StarG isspace) (Seq (Chr is_colon) (Seq (StarG isspace) (Grp 2 (StarG dot))))))
         s g (\<lambda>_ g. Some g) =
       Some (g(1 \<mapsto> rstrip (takeWhile (\<lambda>c. c \<noteq> colon) s),
               2 \<mapsto> lstrip (tl (dropWhile (\<lambda>c. c \<noteq> colon) s))))"
proof -
  define a where "a = takeWhile (\<lambda>c. c \<noteq> colon) s"
  define b where "b = tl (dropWhile (\<lambda>c. c \<noteq> colon) s)"
  define k where "k = (\<lambda>s' g'.
      bt (Seq (StarG isspace) (Seq (Chr is_colon) (Seq (StarG isspace) (Grp 2 (StarG dot)))))
        s' (g'(1 \<mapsto> take (length s - length s') s)) (\<lambda>_ g. Some g))"
  have s: "s = a @ colon # b"
    unfolding a_def b_def by (rule split_at_colon [OF colon])
  have a_no_colon: "colon \<notin> set a"
    unfolding a_def by (auto dest: set_takeWhileD)
  obtain w where w: "a = rstrip a @ w" "\<forall>c \<in> set w. isspace c"
    using rstrip_decomp [of a] by blast
  define j where "j = length (rstrip a)"
  have sj: "s = rstrip a @ w @ colon # b"
    using s w(1) by simp
  have kval: "k (drop i s) g =
      (case dropWhile isspace (drop i s) of
         [] \<Rightarrow> None
       | c # rest \<Rightarrow>
           if c = colon
           then Some (g(1 \<mapsto> take i s, 2 \<mapsto> takeWhile dot (dropWhile isspace rest)))
           else None)" if "i \<le> length s" for i
  proof -
    from that have eq: "take (length s - length (drop i s)) s = take i s" by simp
    show ?thesis unfolding k_def bt_colon_value eq by (rule refl)
  qed
  have "bt (StarL dot) s g k =
      Some (g(1 \<mapsto> rstrip a, 2 \<mapsto> lstrip b))"
  proof (rule bt_StarL_first [of j])
    show "j \<le> length s" unfolding j_def by (subst sj) simp
    show "\<forall>c \<in> set (take j s). dot c" using dots by (auto dest: in_set_takeD)
    show "k (drop i s) g = None" if "i < j" for i
    proof -
      from that have i: "i < length (rstrip a)" by (simp add: j_def)
      then have ne: "rstrip a \<noteq> []" by auto
      have "last (rstrip a) \<in> set (drop i (rstrip a))"
        using i ne by (metis drop_eq_Nil2 last_drop last_in_set not_le)
      moreover have "\<not> isspace (last (rstrip a))" by (rule rstrip_last [OF ne])
      ultimately have dw: "dropWhile isspace (drop i (rstrip a) @ w @ colon # b) =
          dropWhile isspace (drop i (rstrip a)) @ w @ colon # b"
        by (rule dropWhile_append1)
      have d: "drop i s = drop i (rstrip a) @ w @ colon # b"
        using i by (subst sj) simp
      have dne: "dropWhile isspace (drop i (rstrip a)) \<noteq> []"
        using \<open>last (rstrip a) \<in> set (drop i (rstrip a))\<close> \<open>\<not> isspace (last (rstrip a))\<close>
        by auto
      then obtain c rest where cr: "dropWhile isspace (drop i (rstrip a)) = c # rest"
        by (cases "dropWhile isspace (drop i (rstrip a))") auto
      then have "c \<in> set (dropWhile isspace (drop i (rstrip a)))" by simp
      then have "c \<in> set (rstrip a)"
        by (meson in_set_dropD set_dropWhileD)
      then have "c \<in> set a" using w(1) by (metis Un_iff set_append)
      with a_no_colon have nc: "c \<noteq> colon" by auto
      have "i \<le> length s" using i by (subst sj) simp
      then have "k (drop i s) g =
          (case dropWhile isspace (drop i s) of
             [] \<Rightarrow> None
           | c # rest \<Rightarrow>
               if c = colon
               then Some (g(1 \<mapsto> take i s, 2 \<mapsto> takeWhile dot (dropWhile isspace rest)))
               else None)"
        by (rule kval)
      also have "dropWhile isspace (drop i s) = c # rest @ w @ colon # b"
        by (simp only: d dw cr append_Cons)
      finally show ?thesis using nc by simp
    qed
    show "k (drop j s) g = Some (g(1 \<mapsto> rstrip a, 2 \<mapsto> lstrip b))"
    proof -
      have d: "drop j s = w @ colon # b" unfolding j_def by (subst sj) simp
      have t: "take j s = rstrip a" unfolding j_def by (subst sj) simp
      have "dropWhile isspace (w @ colon # b) = dropWhile isspace (colon # b)"
        using w(2) by (intro dropWhile_append2) simp
      then have dw: "dropWhile isspace (drop j s) = colon # b"
        using colon_not_space by (simp add: d)
      have "\<forall>c \<in> set (dropWhile isspace b). dot c"
        using dots s by (auto dest: set_dropWhileD)
      then have tw: "takeWhile dot (dropWhile isspace b) = dropWhile isspace b"
        by (simp add: takeWhile_eq_all_conv)
      have "j \<le> length s" unfolding j_def by (subst sj) simp
      then show ?thesis
        by (simp add: kval dw t tw lstrip_def)
    qed
  qed
  moreover have "bt (Seq (Grp 1 (StarL dot))
           (Seq (StarG isspace) (Seq (Chr is_colon) (Seq (StarG isspace) (Grp 2 (StarG dot))))))
         s g (\<lambda>_ g. Some g) = bt (StarL dot) s g k"
    unfolding k_def by (simp only: bt.simps(3) bt.simps(7))
  ultimately show ?thesis
    by (simp only: a_def b_def)
qed


lemma bt_label_value_none:
  assumes "colon \<notin> set s"
  shows "bt (Seq (Grp 1 (StarL dot))
           (Seq (StarG isspace) (Seq (Chr is_colon) (Seq (StarG isspace) (Grp 2 (StarG dot))))))
         s g (\<lambda>_ g. Some g) = None"
proof -
  define k where "k = (\<lambda>s' g'.
      bt (Seq (StarG isspace) (Seq (Chr is_colon) (Seq (StarG isspace) (Grp 2 (StarG dot)))))
        s' (g'(1 \<mapsto> take (length s - length s') s)) (\<lambda>_ g. Some g))"
  have "k (drop i s) g = None" for i
  proof (cases "dropWhile isspace (drop i s)")
    case Nil
    then show ?thesis unfolding k_def bt_colon_value by (simp only: list.case)
  next
    case (Cons c rest)
    then have "c \<in> set (dropWhile isspace (drop i s))" by simp
    then have "c \<in> set s" by (meson in_set_dropD set_dropWhileD)
    with assms have "c \<noteq> colon" by auto
    with Cons show ?thesis unfolding k_def bt_colon_value by (simp only: list.case if_False)
  qed
  then have "bt (StarL dot) s g k = None" by (intro bt_StarL_none)
  moreover have "bt (Seq (Grp 1 (StarL dot))
           (Seq (StarG isspace) (Seq (Chr is_colon) (Seq (StarG isspace) (Grp 2 (StarG dot))))))
         s g (\<lambda>_ g. Some g) = bt (StarL dot) s g k"
    unfolding k_def by (simp only: bt.simps(3) bt.simps(7))
  ultimately show ?thesis by (simp only:)
qed

lemma re_match_field_regex:
  assumes dots: "\<forall>c \<in> set line. dot c"
  shows "re_match field_regex line =
     (if colon \<in> set line
      then Some ((\<lambda>_. None)(1 \<mapsto> strip (takeWhile (\<lambda>c. c \<noteq> colon) line),
                            2 \<mapsto> lstrip (tl (dropWhile (\<lambda>c. c \<noteq> colon) line))))
      else None)"
proof -
  define k where "k = (\<lambda>s' g'. bt (Seq (Grp 1 (StarL dot))
           (Seq (StarG isspace) (Seq (Chr is_colon) (Seq (StarG isspace) (Grp 2 (StarG dot))))))
         s' g' (\<lambda>_ g. Some g))"
  have unfold: "re_match field_regex line = bt (StarG isspace) line (\<lambda>_. None) k"
    unfolding k_def re_match_def field_regex_def by (simp only: bt.simps(3))
  show ?thesis
  proof (cases "colon \<in> set line")
    case True
    have "colon \<notin> set (takeWhile isspace line)"
      using colon_not_space by (auto dest: set_takeWhileD)
    with True have c: "colon \<in> set (dropWhile isspace line)"
      using takeWhile_dropWhile_id [of isspace line] by (metis Un_iff set_append)
    have d: "\<forall>c \<in> set (dropWhile isspace line). dot c"
      using dots by (auto dest: set_dropWhileD)
    have imp: "isspace x \<Longrightarrow> x \<noteq> colon" for x
      using colon_not_space by auto
    have "k (dropWhile isspace line) (\<lambda>_. None) =
        Some ((\<lambda>_. None)(1 \<mapsto> rstrip (takeWhile (\<lambda>c. c \<noteq> colon) (dropWhile isspace line)),
               2 \<mapsto> lstrip (tl (dropWhile (\<lambda>c. c \<noteq> colon) (dropWhile isspace line)))))"
      unfolding k_def by (rule bt_label_value [OF c d])
    also have "takeWhile (\<lambda>c. c \<noteq> colon) (dropWhile isspace line) =
        lstrip (takeWhile (\<lambda>c. c \<noteq> colon) line)"
      unfolding lstrip_def by (rule takeWhile_dropWhile_commute) (rule imp)
    also have "dropWhile (\<lambda>c. c \<noteq> colon) (dropWhile isspace line) =
        dropWhile (\<lambda>c. c \<noteq> colon) line"
      by (rule dropWhile_dropWhile_weaker) (rule imp)
    finally have "bt (StarG isspace) line (\<lambda>_. None) k =
        Some ((\<lambda>_. None)(1 \<mapsto> rstrip (lstrip (takeWhile (\<lambda>c. c \<noteq> colon) line)),
               2 \<mapsto> lstrip (tl (dropWhile (\<lambda>c. c \<noteq> colon) line))))"
      by (rule bt_StarG_first)
    with True unfold show ?thesis by (simp add: strip_def)
  next
    case False
    have "k (drop i line) (\<lambda>_. None) = None" for i
      unfolding k_def using False by (intro bt_label_value_none) (auto dest: in_set_dropD)
    then have "bt (StarG isspace) line (\<lambda>_. None) k = None"
      by (intro bt_StarG_none)
    with False unfold show ?thesis by simp
  qed
qed


subsection \<open>Lines\<close>

lemma splitlines_from_no_break:
  "\<forall>c \<in> set cur. \<not> is_linebreak c \<Longrightarrow>
   \<forall>l \<in> set (splitlines_from cur s). \<forall>c \<in> set l. \<not> is_linebreak c"
proof (induction cur s rule: splitlines_from.induct)
  case (1 cur)
  then show ?case by simp
next
  case (2 cur c cs)
  show ?case
  proof (cases "is_linebreak c")
    case True
    show ?thesis
    proof (cases cs)
      case Nil
      with True "2.prems" show ?thesis by simp
    next
      case (Cons d ds)
      show ?thesis
      proof (cases "c = 13 \<and> d = 10")
        case t: True
        have "\<forall>l \<in> set (splitlines_from [] ds). \<forall>c \<in> set l. \<not> is_linebreak c"
          by (rule "2.IH"(1) [OF True Cons t]) simp
        moreover have "splitlines_from cur (c # cs) = rev cur # splitlines_from [] ds"
          unfolding Cons using True t
          by (subst splitlines_from.simps(2)) (simp del: splitlines_from.simps)
        ultimately show ?thesis using "2.prems" by (simp del: splitlines_from.simps)
      next
        case f: False
        have "\<forall>l \<in> set (splitlines_from [] (d # ds)). \<forall>c \<in> set l. \<not> is_linebreak c"
          by (rule "2.IH"(2) [OF True Cons f]) simp
        moreover have "splitlines_from cur (c # cs) = rev cur # splitlines_from [] (d # ds)"
          unfolding Cons using True f
          by (subst splitlines_from.simps(2)) (auto simp del: splitlines_from.simps)
        ultimately show ?thesis using "2.prems" by (simp del: splitlines_from.simps)
      qed
    qed
  next
    case False
    have "\<forall>l \<in> set (splitlines_from (c # cur) cs). \<forall>c \<in> set l. \<not> is_linebreak c"
      using "2.prems" False by (intro "2.IH"(3) [OF False]) simp
    moreover have "splitlines_from cur (c # cs) = splitlines_from (c # cur) cs"
      using False by (subst splitlines_from.simps(2)) (simp del: splitlines_from.simps)
    ultimately show ?thesis by (simp del: splitlines_from.simps)
  qed
qed

lemma splitlines_dots: "l \<in> set (splitlines s) \<Longrightarrow> \<forall>c \<in> set l. dot c"
proof -
  assume "l \<in> set (splitlines s)"
  then have "\<forall>c \<in> set l. \<not> is_linebreak c"
    unfolding splitlines_def using splitlines_from_no_break [of "[]" s] by simp
  moreover have "is_linebreak 10" by (simp add: is_linebreak_def)
  ultimately show ?thesis by (auto simp add: dot_def)
qed

subsection \<open>The field block\<close>

lemma parse_lines_step:
  assumes "\<forall>c \<in> set line. dot c"
  shows "parse_lines d (line # ls) =
     (case label_colon_value line of
        None \<Rightarrow> parse_lines d ls
      | Some (k, v) \<Rightarrow> parse_lines (d(k \<mapsto> v)) ls)"
  by (simp add: re_match_field_regex [OF assms] label_colon_value_def strip_strip strip_lstrip)

lemma parse_lines_map_of:
  "\<forall>l \<in> set ls. \<forall>c \<in> set l. dot c \<Longrightarrow>
   parse_lines d ls = d ++ map_of (rev (List.map_filter label_colon_value ls))"
proof (induction ls arbitrary: d)
  case Nil
  then show ?case by (simp add: map_filter_simps)
next
  case (Cons line ls)
  then have dots: "\<forall>c \<in> set line. dot c" and rest: "\<forall>l \<in> set ls. \<forall>c \<in> set l. dot c"
    by simp_all
  show ?case
  proof (cases "label_colon_value line")
    case None
    have "parse_lines d (line # ls) = parse_lines d ls"
      by (subst parse_lines_step [OF dots]) (simp add: None)
    with None Cons.IH [OF rest, of d] show ?thesis
      by simp
  next
    case (Some kv)
    obtain k v where kv: "kv = (k, v)" by (cases kv)
    have step: "parse_lines d (line # ls) = parse_lines (d(k \<mapsto> v)) ls"
      by (subst parse_lines_step [OF dots]) (simp add: Some kv)
    have assoc: "d(k \<mapsto> v) ++ m = d ++ ([k \<mapsto> v] ++ m)" for m :: fields
      by (auto simp add: map_add_def fun_eq_iff split: option.splits)
    have "[k \<mapsto> v] ++ map_of (rev (List.map_filter label_colon_value ls)) =
        map_of (rev (List.map_filter label_colon_value (line # ls)))"
      using Some kv by simp
    with step Cons.IH [OF rest, of "d(k \<mapsto> v)"] assoc show ?thesis
      by (simp only:)
  qed
qed

lemma parse_netsh_output_map_of:
  "parse_netsh_output text =
     map_of (rev (List.map_filter label_colon_value (splitlines text)))"
  unfolding parse_netsh_output_def
  using parse_lines_map_of [of "splitlines text" Map.empty] splitlines_dots
  by simp

lemma label_colon_value_trimmed:
  "label_colon_value line = Some (k, v) \<Longrightarrow> strip k = k \<and> strip v = v"
  by (auto simp add: label_colon_value_def strip_strip split: if_splits)

text \<open>
  Claim C6. The field-block parser has one entry per line with a colon, read in the order
  of the lines so that a later line overwrites an earlier one with the same label: the
  result is the table of the \<open>(label, value)\<close> pairs of the lines, looked up from the
  last line backwards. Every label and every value of the result is stripped. In
  particular, when a line gives \<open>(k, v)\<close> and no later line has the label \<open>k\<close>, the
  result maps \<open>k\<close> to \<open>v\<close>.
\<close>

theorem parse_netsh_output_last_wins:
  "parse_netsh_output text =
     map_of (rev (List.map_filter label_colon_value (splitlines text)))
   \<and> (\<forall>k v. parse_netsh_output text k = Some v \<longrightarrow> strip k = k \<and> strip v = v)
   \<and> (\<forall>before line after k v.
        splitlines text = before @ line # after
        \<and> label_colon_value line = Some (k, v)
        \<and> (\<forall>l \<in> set after. \<forall>v'. label_colon_value l \<noteq> Some (k, v'))
        \<longrightarrow> parse_netsh_output text k = Some v)"
proof (intro conjI allI impI)
  show "parse_netsh_output text =
     map_of (rev (List.map_filter label_colon_value (splitlines text)))"
    by (rule parse_netsh_output_map_of)
next
  fix k v
  assume "parse_netsh_output text k = Some v"
  then have "(k, v) \<in> set (rev (List.map_filter label_colon_value (splitlines text)))"
    unfolding parse_netsh_output_map_of by (rule map_of_SomeD)
  then obtain line where "label_colon_value line = Some (k, v)"
    by (auto simp add: map_filter_def)
  then show "strip k = k" "strip v = v"
    by (simp_all add: label_colon_value_trimmed)
next
  fix before line after k v
  assume h: "splitlines text = before @ line # after
        \<and> label_colon_value line = Some (k, v)
        \<and> (\<forall>l \<in> set after. \<forall>v'. label_colon_value l \<noteq> Some (k, v'))"
  then have lines: "splitlines text = before @ line # after"
    and lv: "label_colon_value line = Some (k, v)"
    and later: "\<forall>l \<in> set after. \<forall>v'. label_colon_value l \<noteq> Some (k, v')"
    by simp_all
  have "k \<notin> fst ` set (List.map_filter label_colon_value after)"
  proof
    assume "k \<in> fst ` set (List.map_filter label_colon_value after)"
    then obtain v' where "(k, v') \<in> set (List.map_filter label_colon_value after)"
      by auto
    then obtain l where "l \<in> set after" "label_colon_value l = Some (k, v')"
      by (auto simp add: map_filter_def)
    with later show False by blast
  qed
  then have none: "map_of (rev (List.map_filter label_colon_value after)) k = None"
    by (simp add: map_of_eq_None_iff)
  have "List.map_filter label_colon_value (before @ line # after) =
      List.map_filter label_colon_value before @ (k, v) # List.map_filter label_colon_value after"
    using lv by (simp add: map_filter_def)
  with none lines show "parse_netsh_output text k = Some v"
    by (simp add: parse_netsh_output_map_of map_add_def)
qed

lemma example_block_lines:
  "splitlines example_block =
     [lit ''    Key Content   : old'', lit ''no separator here'',
      lit ''  Key Content : secret : 123  '', lit ''Cipher: CCMP'']"
  by (simp add: example_block_def splitlines_def is_linebreak_def lit_def)

theorem parse_netsh_output_last_wins_witness:
  "splitlines example_block =
     [lit ''    Key Content   : old'', lit ''no separator here''] @
     lit ''  Key Content : secret : 123  '' # [lit ''Cipher: CCMP'']
   \<and> label_colon_value (lit ''    Key Content   : old'') =
       Some (lit ''Key Content'', lit ''old'')
   \<and> label_colon_value (lit ''  Key Content : secret : 123  '') =
       Some (lit ''Key Content'', lit ''secret : 123'')
   \<and> label_colon_value (lit ''Cipher: CCMP'') = Some (lit ''Cipher'', lit ''CCMP'')
   \<and> parse_netsh_output example_block (lit ''Key Content'') = Some (lit ''secret : 123'')
   \<and> strip (lit ''Key Content'') = lit ''Key Content''
   \<and> strip (lit ''secret : 123'') = lit ''secret : 123''"
proof -
  have l: "splitlines example_block =
     [lit ''    Key Content   : old'', lit ''no separator here''] @
     lit ''  Key Content : secret : 123  '' # [lit ''Cipher: CCMP'']"
    by (simp add: example_block_lines)
  have v0: "label_colon_value (lit ''    Key Content   : old'') =
       Some (lit ''Key Content'', lit ''old'')"
    by (simp add: label_colon_value_def colon_def strip_def lstrip_def rstrip_def isspace_def
        lit_def)
  have v: "label_colon_value (lit ''  Key Content : secret : 123  '') =
       Some (lit ''Key Content'', lit ''secret : 123'')"
    by (simp add: label_colon_value_def colon_def strip_def lstrip_def rstrip_def isspace_def
        lit_def)
  have v1: "label_colon_value (lit ''Cipher: CCMP'') = Some (lit ''Cipher'', lit ''CCMP'')"
    by (simp add: label_colon_value_def colon_def strip_def lstrip_def rstrip_def isspace_def
        lit_def)
  have d: "lit ''Cipher'' \<noteq> lit ''Key Content''"
    by (simp add: lit_def)
  have p: "parse_netsh_output example_block (lit ''Key Content'') = Some (lit ''secret : 123'')"
    by (rule parse_netsh_output_last_wins [of example_block, THEN conjunct2, THEN conjunct2,
          rule_format, of "[lit ''    Key Content   : old'', lit ''no separator here'']"
          "lit ''  Key Content : secret : 123  ''" "[lit ''Cipher: CCMP'']"])
      (simp add: example_block_lines v v1 d)
  from parse_netsh_output_last_wins [of example_block, THEN conjunct2, THEN conjunct1,
      rule_format, OF p] l v0 v v1 p
  show ?thesis by (simp only: simp_thms)
qed

section \<open>The profile-name parser\<close>

lemma bt_result_from_continuation:
  "bt r s g k = Some res \<Longrightarrow> \<exists>s' g'. k s' g' = Some res"
proof (induction r s g k rule: bt.induct)
  case (1 s g k)
  then show ?case by auto
next
  case (2 p s g k)
  then show ?case by (auto split: list.splits if_splits)
next
  case (3 a b s g k)
  from "3.prems" have "bt a s g (\<lambda>s' g'. bt b s' g' k) = Some res" by simp
  then have "\<exists>s' g'. bt b s' g' k = Some res" by (rule "3.IH"(2))
  then obtain s' g' where "bt b s' g' k = Some res" by (elim exE)
  then show ?case by (rule "3.IH"(1))
next
  case (4 a b s g k)
  then show ?case by (auto split: option.splits)
next
  case (5 p s g k)
  show ?case
  proof (cases s)
    case Nil
    with "5.prems" have "k [] g = Some res" by (simp add: bt_star)
    then show ?thesis by blast
  next
    case (Cons c cs)
    show ?thesis
    proof (cases "p c")
      case False
      with Cons "5.prems" have "k (c # cs) g = Some res" by (simp add: bt_star)
      then show ?thesis by blast
    next
      case True
      show ?thesis
      proof (cases "bt (StarG p) cs g k")
        case None
        with True Cons "5.prems" have "k (c # cs) g = Some res" by (simp add: bt_star)
        then show ?thesis by blast
      next
        case (Some r)
        with True Cons "5.prems" have "bt (StarG p) cs g k = Some res" by (simp add: bt_star)
        then show ?thesis by (rule "5.IH" [OF Cons True])
      qed
    qed
  qed
next
  case (6 p s g k)
  show ?case
  proof (cases "k s g")
    case (Some r)
    with "6.prems" have "k s g = Some res" by (simp add: bt_star)
    then show ?thesis by blast
  next
    case None
    show ?thesis
    proof (cases s)
      case Nil
      with None "6.prems" show ?thesis by (simp add: bt_star)
    next
      case (Cons c cs)
      show ?thesis
      proof (cases "p c")
        case True
        with None Cons "6.prems" have "bt (StarL p) cs g k = Some res" by (simp add: bt_star)
        then show ?thesis by (rule "6.IH" [OF None Cons True])
      next
        case False
        with None Cons "6.prems" show ?thesis by (simp add: bt_star)
      qed
    qed
  qed
next
  case (7 i a s g k)
  from "7.prems" have
    "bt a s g (\<lambda>s' g'. k s' (g'(i \<mapsto> take (length s - length s') s))) = Some res"
    by simp
  then have "\<exists>s' g'. k s' (g'(i \<mapsto> take (length s - length s') s)) = Some res"
    by (rule "7.IH")
  then obtain s' g' where "k s' (g'(i \<mapsto> take (length s - length s') s)) = Some res"
    by (elim exE)
  then show ?case by (intro exI)
qed

lemma profile_regex_group:
  assumes "re_match profile_regex s = Some res"
  shows "res 1 \<noteq> None"
proof -
  define k where "k = (\<lambda>s' g'. bt (Grp 1 (StarG dot)) s' g' (\<lambda>_ g. Some g))"
  have last: "res 1 \<noteq> None" if "k s' g' = Some res" for s' g'
  proof -
    from that have "bt (StarG dot) s' g'
        (\<lambda>s'' g''. Some (g''(1 \<mapsto> take (length s' - length s'') s'))) = Some res"
      unfolding k_def by simp
    then have "\<exists>(s''::str) (g''::groups).
        Some (g''(1 \<mapsto> take (length s' - length s'') s')) = Some res"
      by (rule bt_result_from_continuation)
    then obtain s'' :: str and g'' :: groups where "Some (g''(1 \<mapsto> take (length s' - length s'') s')) = Some res"
      by (elim exE)
    then have "res = g''(1 \<mapsto> take (length s' - length s'') s')" by simp
    then show ?thesis by simp
  qed
  from assms have "bt (StarG dot) s (\<lambda>_. None)
      (\<lambda>s1 g1. bt (Alt (lit_ci (lit ''All User Profile''))
              (Alt (lit_ci (lit ''Todos los perfiles de usuario''))
                   (lit_ci (lit ''Perfil de todos los usuarios'')))) s1 g1
        (\<lambda>s2 g2. bt (StarG isspace) s2 g2
          (\<lambda>s3 g3. bt (Chr is_colon) s3 g3
            (\<lambda>s4 g4. bt (StarG isspace) s4 g4 k)))) = Some res"
    unfolding k_def re_match_def profile_regex_def by (simp only: bt.simps(3))
  then obtain s1 g1 where "bt (Alt (lit_ci (lit ''All User Profile''))
              (Alt (lit_ci (lit ''Todos los perfiles de usuario''))
                   (lit_ci (lit ''Perfil de todos los usuarios'')))) s1 g1
        (\<lambda>s2 g2. bt (StarG isspace) s2 g2
          (\<lambda>s3 g3. bt (Chr is_colon) s3 g3
            (\<lambda>s4 g4. bt (StarG isspace) s4 g4 k))) = Some res"
    using bt_result_from_continuation by blast
  then obtain s2 g2 where "bt (StarG isspace) s2 g2
          (\<lambda>s3 g3. bt (Chr is_colon) s3 g3
            (\<lambda>s4 g4. bt (StarG isspace) s4 g4 k)) = Some res"
    using bt_result_from_continuation by blast
  then obtain s3 g3 where "bt (Chr is_colon) s3 g3
            (\<lambda>s4 g4. bt (StarG isspace) s4 g4 k) = Some res"
    using bt_result_from_continuation by blast
  then obtain s4 g4 where "bt (StarG isspace) s4 g4 k = Some res"
    using bt_result_from_continuation by blast
  then obtain s5 g5 where "k s5 g5 = Some res"
    using bt_result_from_continuation by blast
  then show ?thesis by (rule last)
qed

lemma re_search_from_match: "re_search r s = Some res \<Longrightarrow> \<exists>s'. re_match r s' = Some res"
  by (induction s) (auto split: option.splits)

lemma captured_name_matches:
  "(captured_name line \<noteq> None) = (re_search profile_regex line \<noteq> None)"
proof (cases "re_search profile_regex line")
  case None
  then show ?thesis by (simp add: captured_name_def)
next
  case (Some res)
  then obtain s' where "re_match profile_regex s' = Some res"
    using re_search_from_match by blast
  then have "res 1 \<noteq> None" by (rule profile_regex_group)
  with Some show ?thesis by (auto simp add: captured_name_def)
qed

lemma bt_lit_ci:
  "bt (lit_ci label) s g k = (if startswith_ci s label then k (drop (length label) s) g else None)"
proof (induction label arbitrary: s)
  case Nil
  show ?case by simp
next
  case (Cons p ps)
  show ?case
  proof (cases s)
    case Nil
    then show ?thesis by simp
  next
    case (Cons c cs)
    then show ?thesis using Cons.IH [of cs] by simp
  qed
qed

lemma bt_after_label:
  assumes "\<forall>c \<in> set s. dot c"
  shows "bt (lit_ci label) s g
     (\<lambda>s' g'. bt (Seq (StarG isspace) (Seq (Chr is_colon) (Seq (StarG isspace) (Grp 1 (StarG dot)))))
        s' g' (\<lambda>_ g. Some g)) =
     map_option (\<lambda>n. g(1 \<mapsto> n)) (after_label label s)"
proof -
  define k where "k = (\<lambda>s' g'.
      bt (Seq (StarG isspace) (Seq (Chr is_colon) (Seq (StarG isspace) (Grp 1 (StarG dot)))))
        s' g' (\<lambda>_ g. Some g))"
  have kv: "k s' g' =
      (case dropWhile isspace s' of
         [] \<Rightarrow> None
       | c # rest \<Rightarrow>
           if c = colon then Some (g'(1 \<mapsto> takeWhile dot (dropWhile isspace rest))) else None)"
    for s' g'
    unfolding k_def by (rule bt_colon_value)
  have "bt (lit_ci label) s g k = map_option (\<lambda>n. g(1 \<mapsto> n)) (after_label label s)"
  proof (cases "startswith_ci s label")
    case False
    then show ?thesis by (simp add: bt_lit_ci after_label_def)
  next
    case True
    show ?thesis
    proof (cases "dropWhile isspace (drop (length label) s)")
      case Nil
      show ?thesis
        by (simp only: bt_lit_ci True if_True kv Nil list.case after_label_def option.map)
    next
      case (Cons c rest)
      have "set rest \<subseteq> set (dropWhile isspace (drop (length label) s))"
        by (simp only: Cons) auto
      then have "set rest \<subseteq> set s"
        by (meson in_set_dropD set_dropWhileD subset_iff)
      then have "\<forall>c \<in> set (dropWhile isspace rest). dot c"
        using assms by (auto dest: set_dropWhileD)
      then have tw: "takeWhile dot (dropWhile isspace rest) = lstrip rest"
        by (simp add: takeWhile_eq_all_conv lstrip_def)
      show ?thesis
        by (simp only: bt_lit_ci True if_True kv Cons list.case after_label_def tw)
          (simp only: option.map if_distrib [of "map_option (\<lambda>n. g(1 \<mapsto> n))"])
    qed
  qed
  then show ?thesis unfolding k_def .
qed

lemma bt_label_here:
  assumes "\<forall>c \<in> set s. dot c"
  shows "bt (Alt (lit_ci (lit ''All User Profile''))
              (Alt (lit_ci (lit ''Todos los perfiles de usuario''))
                   (lit_ci (lit ''Perfil de todos los usuarios'')))) s g
     (\<lambda>s' g'. bt (Seq (StarG isspace) (Seq (Chr is_colon) (Seq (StarG isspace) (Grp 1 (StarG dot)))))
        s' g' (\<lambda>_ g. Some g)) =
     map_option (\<lambda>n. g(1 \<mapsto> n)) (label_here profile_labels s)"
proof -
  define a1 where "a1 = after_label (lit ''All User Profile'') s"
  define a2 where "a2 = after_label (lit ''Todos los perfiles de usuario'') s"
  define a3 where "a3 = after_label (lit ''Perfil de todos los usuarios'') s"
  have "(case map_option (\<lambda>n. g(1 \<mapsto> n)) a1 of
           Some r \<Rightarrow> Some r
         | None \<Rightarrow>
             (case map_option (\<lambda>n. g(1 \<mapsto> n)) a2 of
                Some r \<Rightarrow> Some r
              | None \<Rightarrow> map_option (\<lambda>n. g(1 \<mapsto> n)) a3)) =
        map_option (\<lambda>n. g(1 \<mapsto> n))
          (case a1 of Some n \<Rightarrow> Some n
           | None \<Rightarrow> (case a2 of Some n \<Rightarrow> Some n
             | None \<Rightarrow> (case a3 of Some n \<Rightarrow> Some n | None \<Rightarrow> None)))"
    by (cases a1; cases a2; cases a3) simp_all
  then show ?thesis
    unfolding a1_def a2_def a3_def
    by (simp only: bt.simps(4) bt_after_label [OF assms] profile_labels_def label_here.simps)
qed

lemma bt_last_label:
  assumes "\<forall>c \<in> set s. dot c"
  shows "bt (StarG dot) s g
     (\<lambda>s1 g1. bt (Alt (lit_ci (lit ''All User Profile''))
              (Alt (lit_ci (lit ''Todos los perfiles de usuario''))
                   (lit_ci (lit ''Perfil de todos los usuarios'')))) s1 g1
       (\<lambda>s' g'. bt (Seq (StarG isspace) (Seq (Chr is_colon) (Seq (StarG isspace) (Grp 1 (StarG dot)))))
          s' g' (\<lambda>_ g. Some g))) =
     map_option (\<lambda>n. g(1 \<mapsto> n)) (last_label s)"
proof -
  define k where "k = (\<lambda>s1 g1. bt (Alt (lit_ci (lit ''All User Profile''))
              (Alt (lit_ci (lit ''Todos los perfiles de usuario''))
                   (lit_ci (lit ''Perfil de todos los usuarios'')))) s1 g1
       (\<lambda>s' g'. bt (Seq (StarG isspace) (Seq (Chr is_colon) (Seq (StarG isspace) (Grp 1 (StarG dot)))))
          s' g' (\<lambda>_ g. Some g)))"
  define f where "f = (\<lambda>n. g(1 \<mapsto> n))"
  have kv: "k s' g = map_option f (label_here profile_labels s')"
    if "\<forall>c \<in> set s'. dot c" for s'
    unfolding k_def f_def by (rule bt_label_here [OF that])
  from assms have "bt (StarG dot) s g k = map_option f (last_label s)"
  proof (induction s)
    case Nil
    have "bt (StarG dot) [] g k = k [] g" by (simp add: bt_star)
    also have "\<dots> = map_option f (label_here profile_labels [])" by (rule kv) simp
    finally show ?case by simp
  next
    case (Cons c cs)
    then have cs: "\<forall>c \<in> set cs. dot c" and c: "dot c" by simp_all
    have "bt (StarG dot) (c # cs) g k =
        (case bt (StarG dot) cs g k of Some r \<Rightarrow> Some r | None \<Rightarrow> k (c # cs) g)"
      using c by (simp add: bt_star)
    then show ?case
      by (simp add: Cons.IH [OF cs] kv [OF Cons.prems] split: option.splits)
  qed
  then show ?thesis unfolding k_def f_def .
qed

lemma re_match_profile_regex:
  assumes "\<forall>c \<in> set s. dot c"
  shows "re_match profile_regex s = map_option (\<lambda>n. (\<lambda>_. None)(1 \<mapsto> n)) (last_label s)"
proof -
  have "re_match profile_regex s = bt (StarG dot) s (\<lambda>_. None)
     (\<lambda>s1 g1. bt (Alt (lit_ci (lit ''All User Profile''))
              (Alt (lit_ci (lit ''Todos los perfiles de usuario''))
                   (lit_ci (lit ''Perfil de todos los usuarios'')))) s1 g1
       (\<lambda>s' g'. bt (Seq (StarG isspace) (Seq (Chr is_colon) (Seq (StarG isspace) (Grp 1 (StarG dot)))))
          s' g' (\<lambda>_ g. Some g)))"
    unfolding re_match_def profile_regex_def by (simp only: bt.simps(3))
  then show ?thesis by (simp only: bt_last_label [OF assms])
qed

lemma re_search_profile_regex:
  assumes "\<forall>c \<in> set s. dot c"
  shows "re_search profile_regex s = map_option (\<lambda>n. (\<lambda>_. None)(1 \<mapsto> n)) (last_label s)"
proof -
  define f :: "str \<Rightarrow> groups" where "f = (\<lambda>n. (\<lambda>_. None)(1 \<mapsto> n))"
  have m: "re_match profile_regex s' = map_option f (last_label s')"
    if "\<forall>c \<in> set s'. dot c" for s'
    unfolding f_def by (rule re_match_profile_regex [OF that])
  from assms have "re_search profile_regex s = map_option f (last_label s)"
  proof (induction s)
    case Nil
    have "re_match profile_regex [] = map_option f (last_label [])" by (rule m) simp
    then show ?case by simp
  next
    case (Cons c cs)
    then have cs: "\<forall>c \<in> set cs. dot c" by simp
    show ?case
      by (simp add: m [OF Cons.prems] Cons.IH [OF cs] split: option.splits)
  qed
  then show ?thesis unfolding f_def .
qed

lemma captured_name_last_label:
  "\<forall>c \<in> set line. dot c \<Longrightarrow> captured_name line = map_option strip (last_label line)"
  by (simp add: captured_name_def re_search_profile_regex split: option.splits)

lemma map_filter_captured_name:
  "\<forall>l \<in> set ls. \<forall>c \<in> set l. dot c \<Longrightarrow>
   List.map_filter captured_name ls = map strip (List.map_filter last_label ls)"
proof (induction ls)
  case Nil
  show ?case by simp
next
  case (Cons line ls)
  then have "captured_name line = map_option strip (last_label line)"
    by (simp add: captured_name_last_label)
  with Cons show ?case by (cases "last_label line") simp_all
qed

lemma profile_names_map_filter:
  "profile_names ls = filter (\<lambda>n. n \<noteq> []) (List.map_filter captured_name ls)"
proof (induction ls)
  case Nil
  show ?case by simp
next
  case (Cons line ls)
  show ?case
  proof (cases "re_search profile_regex line")
    case None
    with Cons.IH show ?thesis by (simp add: captured_name_def)
  next
    case (Some res)
    show ?thesis
    proof (cases "res 1")
      case None
      with Some Cons.IH show ?thesis by (simp add: captured_name_def)
    next
      case n: (Some n)
      with Some Cons.IH show ?thesis by (simp add: captured_name_def)
    qed
  qed
qed

text \<open>
  Claim C7, as amended. The profile-name parser returns, in the order of the lines, the
  stripped names captured from the lines in which the pattern with the all-user-profile
  labels is found, leaving out the lines without a match and the names that are empty
  after stripping. A line gives a name exactly when the pattern is found in it, and the
  name is what follows the last label of the line that has a colon after it.
\<close>

theorem parse_profile_names_in_order:
  "parse_profile_names text =
     filter (\<lambda>n. n \<noteq> []) (List.map_filter captured_name (splitlines text))
   \<and> (\<forall>line. (captured_name line \<noteq> None) = (re_search profile_regex line \<noteq> None))
   \<and> parse_profile_names text =
       filter (\<lambda>n. n \<noteq> []) (map strip (List.map_filter last_label (splitlines text)))"
proof (intro conjI allI)
  show names: "parse_profile_names text =
     filter (\<lambda>n. n \<noteq> []) (List.map_filter captured_name (splitlines text))"
    by (simp only: parse_profile_names_def profile_names_map_filter)
  have "List.map_filter captured_name (splitlines text) =
      map strip (List.map_filter last_label (splitlines text))"
    by (rule map_filter_captured_name) (simp add: splitlines_dots)
  with names show "parse_profile_names text =
       filter (\<lambda>n. n \<noteq> []) (map strip (List.map_filter last_label (splitlines text)))"
    by (simp only:)
next
  fix line
  show "(captured_name line \<noteq> None) = (re_search profile_regex line \<noteq> None)"
    by (rule captured_name_matches)
qed

lemmas ev_re = ev re_match_def profile_regex_def bt_star

lemma example_listing_lines:
  "splitlines example_listing =
     [lit ''Profiles on interface Wi-Fi:'', [],
      lit ''    All User Profile     : Home'',
      lit ''    todos los perfiles de usuario : Casa Azul  '']"
  by (simp add: example_listing_def splitlines_def is_linebreak_def lit_def)

lemma example_listing_names:
  "captured_name (lit ''Profiles on interface Wi-Fi:'') = None"
  "captured_name [] = None"
  "captured_name (lit ''    All User Profile     : Home'') = Some (lit ''Home'')"
  "captured_name (lit ''    todos los perfiles de usuario : Casa Azul  '') = Some (lit ''Casa Azul'')"
  by (simp_all add: captured_name_def ev_re)

theorem parse_profile_names_in_order_witness:
  "parse_profile_names example_listing = [lit ''Home'', lit ''Casa Azul'']"
  using parse_profile_names_in_order [of example_listing]
  by (simp add: example_listing_lines example_listing_names) (simp add: lit_def)

text \<open>
  Claim C7 as stated promises three names for three matching lines. The pattern is found
  in each of the three lines of this listing, and the parser returns two names: the
  guard \<open>if profile_name:\<close> drops the line whose name is empty.
\<close>

theorem parse_profile_names_empty_name_counterexample:
  "splitlines empty_name_listing =
     [lit ''All User Profile : Home'', lit ''All User Profile : '', lit ''All User Profile : Office'']
   \<and> re_search profile_regex (lit ''All User Profile : Home'') \<noteq> None
   \<and> re_search profile_regex (lit ''All User Profile : '') \<noteq> None
   \<and> re_search profile_regex (lit ''All User Profile : Office'') \<noteq> None
   \<and> parse_profile_names empty_name_listing = [lit ''Home'', lit ''Office'']"
  by (simp add: parse_profile_names_def empty_name_listing_def ev_re)

end
